theory Spec2Isabelle
  imports Main "HOL-Library.Sublist" "HOL-Library.Word" "HOL-Library.Code_Target_Nat"
begin

section \<open>JavaScript values and request configurations\<close>

text \<open>
  The values a request carries in \<open>params\<close> and \<open>data\<close>. A number is a signed word
  of 54 bits: the integers from \<open>-2^53\<close> to \<open>2^53 - 1\<close>, each of which a JavaScript
  number holds exactly. A string is a list of code units below 256. An object is given by
  its own enumerable properties, keyed by strings, in the order in which they were
  created; a pair whose key occurred before gives that property a new value.
\<close>

datatype jsval =
    JUndefined
  | JNull
  | JBool bool
  | JNum "54 word"
  | JStr string
  | JArr "jsval list"
  | JObj "(string \<times> jsval) list"

text \<open>JavaScript truthiness, as tested by \<open>if (params)\<close> and \<open>if (data)\<close>.\<close>

fun truthy :: "jsval \<Rightarrow> bool" where
  "truthy JUndefined = False"
| "truthy JNull = False"
| "truthy (JBool b) = b"
| "truthy (JNum n) = (n \<noteq> 0)"
| "truthy (JStr s) = (s \<noteq> [])"
| "truthy (JArr xs) = True"
| "truthy (JObj kvs) = True"

text \<open>A field that holds a string or is \<open>undefined\<close> (\<open>None\<close>): truthy when non-empty.\<close>

fun truthy_str :: "string option \<Rightarrow> bool" where
  "truthy_str None = False"
| "truthy_str (Some s) = (s \<noteq> [])"

text \<open>A field that holds a number or is \<open>undefined\<close>: truthy when non-zero.\<close>

fun truthy_num :: "int option \<Rightarrow> bool" where
  "truthy_num None = False"
| "truthy_num (Some n) = (n \<noteq> 0)"

text \<open>\<open>String.prototype.endsWith\<close>, \<open>startsWith\<close> and \<open>slice(1)\<close>.\<close>

definition endsWith :: "string \<Rightarrow> string \<Rightarrow> bool" where
  "endsWith s t = (length t \<le> length s \<and> drop (length s - length t) s = t)"

definition startsWith :: "string \<Rightarrow> string \<Rightarrow> bool" where
  "startsWith s t = (take (length t) s = t)"

definition slice1 :: "string \<Rightarrow> string" where
  "slice1 s = drop 1 s"

text \<open>
  The request configuration object. A field that the object does not carry, or carries as
  \<open>undefined\<close>, is \<open>None\<close> (\<open>JUndefined\<close> for \<open>params\<close> and \<open>data\<close>).
  The field \<open>method\<close> of the source is \<open>http_method\<close> here.
\<close>

record config =
  http_method :: "string option"
  url :: "string option"
  headers :: "(string \<rightharpoonup> string) option"
  params :: jsval
  data :: jsval
  timeout :: "int option"

text \<open>
  The module variable \<open>globalConfig\<close>. Each of its three fields can hold \<open>undefined\<close>
  after \<open>setGlobalConfig\<close> (the entry point \<open>initRequest\<close> passes every field it was
  not given as \<open>undefined\<close>).
\<close>

record global_config =
  baseURL :: "string option"
  gheaders :: "(string \<rightharpoonup> string) option"
  gtimeout :: "int option"

definition initialGlobalConfig :: global_config where
  "initialGlobalConfig = \<lparr>baseURL = Some [], gheaders = Some Map.empty, gtimeout = Some 0\<rparr>"

text \<open>
  The argument of \<open>setGlobalConfig\<close>: each key is absent (\<open>None\<close>) or present with a
  value, which may itself be \<open>undefined\<close> (\<open>Some None\<close>).
\<close>

record partial_config =
  p_baseURL :: "string option option"
  p_headers :: "(string \<rightharpoonup> string) option option"
  p_timeout :: "int option option"

text \<open>\<open>globalConfig = {...globalConfig, ...config}\<close>: a key of the argument replaces the
  stored one, an absent key leaves it.\<close>

definition setGlobalConfig :: "global_config \<Rightarrow> partial_config \<Rightarrow> global_config" where
  "setGlobalConfig g p =
     \<lparr>baseURL = (case p_baseURL p of None \<Rightarrow> baseURL g | Some v \<Rightarrow> v),
      gheaders = (case p_headers p of None \<Rightarrow> gheaders g | Some v \<Rightarrow> v),
      gtimeout = (case p_timeout p of None \<Rightarrow> gtimeout g | Some v \<Rightarrow> v)\<rparr>"

text \<open>The object spread \<open>{...x}\<close> of a headers field: \<open>undefined\<close> spreads to nothing.\<close>

definition spread :: "(string \<rightharpoonup> string) option \<Rightarrow> (string \<rightharpoonup> string)" where
  "spread h = (case h of None \<Rightarrow> Map.empty | Some m \<Rightarrow> m)"

text \<open>
  The URL merge of \<open>applyGlobalConfig\<close>: the base URL gets a trailing slash unless it
  ends with one, the request URL loses one leading slash if it starts with one, and the
  two are concatenated.
\<close>

definition joinURL :: "string \<Rightarrow> string \<Rightarrow> string" where
  "joinURL gb cu =
     (let baseURL' = (if endsWith gb ''/'' then gb else gb @ ''/'');
          url' = (if startsWith cu ''/'' then slice1 cu else cu)
      in baseURL' @ url')"

text \<open>
  \<open>applyGlobalConfig\<close> assigns to the fields of the object it is given and returns that
  object; the result below is the state of that one object after the call.
\<close>

definition applyGlobalConfig :: "global_config \<Rightarrow> config \<Rightarrow> config" where
  "applyGlobalConfig g config =
     (let c1 = (if truthy_str (baseURL g) \<and> truthy_str (url config) then
                  (case baseURL g of None \<Rightarrow> config | Some gb \<Rightarrow>
                   (case url config of None \<Rightarrow> config | Some cu \<Rightarrow>
                      config\<lparr>url := Some (joinURL gb cu)\<rparr>))
                else config);
          c2 = (case gheaders g of
                  None \<Rightarrow> c1
                | Some gh \<Rightarrow> c1\<lparr>headers := Some (gh ++ spread (headers c1))\<rparr>);
          c3 = (if truthy_num (gtimeout g) \<and> \<not> truthy_num (timeout c2)
                then c2\<lparr>timeout := gtimeout g\<rparr> else c2)
      in c3)"

section \<open>Transport registry and the configured-request accessor\<close>

text \<open>
  The two module variables \<open>requestorInstance\<close> and \<open>globalConfig\<close>. An adapter is a
  value of type \<open>'a\<close>; \<open>None\<close> is \<open>null\<close> or \<open>undefined\<close>. The record is
  extensible: whatever else a caller's world holds (the server, a clock, a cache) is in
  its extension.
\<close>

record 'a world =
  requestorInstance :: "'a option"
  globalConfig :: global_config

definition inject :: "'a option \<Rightarrow> ('a, 'z) world_scheme \<Rightarrow> ('a, 'z) world_scheme" where
  "inject requestor w = w\<lparr>requestorInstance := requestor\<rparr>"

text \<open>
  What the adapter's \<open>request\<close> does is outside the core: \<open>tr a config w\<close> is the
  settlement of the promise that adapter \<open>a\<close> returns for \<open>config\<close> in world
  \<open>w\<close> (\<open>Inl\<close> a rejection, \<open>Inr\<close> the response), and the world when it settles.
\<close>

type_synonym ('a, 'x, 'r, 'z) transport =
  "'a \<Rightarrow> config \<Rightarrow> ('a, 'z) world_scheme \<Rightarrow> ('x + 'r) \<times> ('a, 'z) world_scheme"

datatype 'x error =
    NotInjected         \<comment> \<open>\<open>Error('Requestor not injected. Please call inject() first.')\<close>\<close>
  | TypeError           \<comment> \<open>reading \<open>request\<close> of \<open>null\<close>\<close>
  | SyntaxError         \<comment> \<open>\<open>JSON.parse\<close> of a text that is not JSON\<close>
  | StorageError        \<comment> \<open>\<open>localStorage\<close> cannot be reached, or \<open>setItem\<close> is over the quota\<close>
  | TransportError 'x   \<comment> \<open>the adapter's promise rejected\<close>

datatype ('e, 'v) settled = Resolved 'v | Rejected 'e

datatype 'a event = Dispatch 'a config | Wait int

definition useRequestor :: "('a, 'z) world_scheme \<Rightarrow> 'x error + unit" where
  "useRequestor w = (if requestorInstance w = None then Inl NotInjected else Inr ())"

text \<open>
  The \<open>request\<close> function of the proxied requestor. Its body reads both module variables
  when it runs. It returns the settlement, the caller's config object as
  \<open>applyGlobalConfig\<close> left it, the world, and the dispatches it made.
\<close>

definition proxied_request ::
  "('a, 'x, 'r, 'z) transport \<Rightarrow> config \<Rightarrow> ('a, 'z) world_scheme \<Rightarrow>
   ('x error + 'r) \<times> config \<times> ('a, 'z) world_scheme \<times> 'a event list" where
  "proxied_request tr config w =
     (let updatedConfig = applyGlobalConfig (globalConfig w) config in
      case requestorInstance w of
        None \<Rightarrow> (Inl TypeError, updatedConfig, w, [])
      | Some a \<Rightarrow>
          (case tr a updatedConfig w of
             (Inl x, w') \<Rightarrow> (Inl (TransportError x), updatedConfig, w', [Dispatch a updatedConfig])
           | (Inr r, w') \<Rightarrow> (Inr r, updatedConfig, w', [Dispatch a updatedConfig])))"

section \<open>Retry decorator\<close>

text \<open>
  The \<open>while\<close> loop of \<open>makeRequest\<close> in \<open>createRetryRequestor\<close>. \<open>sl d w\<close> is the
  world after the timer of \<open>d\<close> milliseconds has fired, whatever ran meanwhile. A
  resolution with \<open>undefined\<close> is \<open>Resolved None\<close>.
\<close>

function retry_loop ::
  "('a, 'x, 'r, 'z) transport \<Rightarrow> (int \<Rightarrow> ('a, 'z) world_scheme \<Rightarrow> ('a, 'z) world_scheme) \<Rightarrow>
   int \<Rightarrow> int \<Rightarrow> config \<Rightarrow> ('a, 'z) world_scheme \<Rightarrow> 'a event list \<Rightarrow>
   ('x error, 'r option) settled \<times> config \<times> ('a, 'z) world_scheme \<times> 'a event list" where
  "retry_loop tr sl maxCount count config w t =
     (if count < maxCount then
        (case proxied_request tr config w of
           (Inr r, config', w', evs) \<Rightarrow> (Resolved (Some r), config', w', t @ evs)
         | (Inl e, config', w', evs) \<Rightarrow>
             (if count + 1 \<ge> maxCount then (Rejected e, config', w', t @ evs)
              else retry_loop tr sl maxCount (count + 1) config'
                     (sl (1000 * (count + 1)) w') (t @ evs @ [Wait (1000 * (count + 1))])))
      else (Resolved None, config, w, t))"
  by pat_completeness auto
termination
  by (relation "measure (\<lambda>(tr, sl, maxCount, count, config, w, t). nat (maxCount - count))") auto

declare retry_loop.simps [simp del]

definition retry_makeRequest ::
  "('a, 'x, 'r, 'z) transport \<Rightarrow> (int \<Rightarrow> ('a, 'z) world_scheme \<Rightarrow> ('a, 'z) world_scheme) \<Rightarrow>
   int \<Rightarrow> config \<Rightarrow> ('a, 'z) world_scheme \<Rightarrow>
   ('x error, 'r option) settled \<times> config \<times> ('a, 'z) world_scheme \<times> 'a event list" where
  "retry_makeRequest tr sl maxCount config w =
     (case useRequestor w :: 'x error + unit of
        Inl e \<Rightarrow> (Rejected e, config, w, [])
      | Inr req \<Rightarrow> retry_loop tr sl maxCount 0 config w [])"

text \<open>
  The state in which attempt \<open>k\<close> (counted from 0) of one call is made when every
  earlier attempt failed: the config object as the earlier attempts left it, and the
  world after the last wait.
\<close>

fun attempt_state ::
  "('a, 'x, 'r, 'z) transport \<Rightarrow> (int \<Rightarrow> ('a, 'z) world_scheme \<Rightarrow> ('a, 'z) world_scheme) \<Rightarrow>
   nat \<Rightarrow> config \<Rightarrow> ('a, 'z) world_scheme \<Rightarrow> config \<times> ('a, 'z) world_scheme" where
  "attempt_state tr sl 0 config w = (config, w)"
| "attempt_state tr sl (Suc k) config w =
     (case attempt_state tr sl k config w of
        (ck, wk) \<Rightarrow>
          (case proxied_request tr ck wk of
             (out, c', w', evs) \<Rightarrow> (c', sl (1000 * (int k + 1)) w')))"

text \<open>What the transport answers at attempt \<open>k\<close>; \<open>None\<close> when no adapter is registered
  at that moment.\<close>

definition transport_outcome ::
  "('a, 'x, 'r, 'z) transport \<Rightarrow> (int \<Rightarrow> ('a, 'z) world_scheme \<Rightarrow> ('a, 'z) world_scheme) \<Rightarrow>
   nat \<Rightarrow> config \<Rightarrow> ('a, 'z) world_scheme \<Rightarrow> ('x + 'r) option" where
  "transport_outcome tr sl k config w =
     (case attempt_state tr sl k config w of
        (ck, wk) \<Rightarrow>
          (case requestorInstance wk of
             None \<Rightarrow> None
           | Some a \<Rightarrow> Some (fst (tr a (applyGlobalConfig (globalConfig wk) ck) wk))))"

definition waits :: "'a event list \<Rightarrow> int list" where
  "waits t = concat (map (\<lambda>ev. case ev of Dispatch a c \<Rightarrow> [] | Wait d \<Rightarrow> [d]) t)"

definition dispatches :: "'a event list \<Rightarrow> ('a \<times> config) list" where
  "dispatches t = concat (map (\<lambda>ev. case ev of Dispatch a c \<Rightarrow> [(a, c)] | Wait d \<Rightarrow> []) t)"

text \<open>The dispatches of attempt \<open>k\<close>, and the events of the first \<open>m\<close> attempts when
  each of them failed and was followed by its wait.\<close>

definition attempt_events ::
  "('a, 'x, 'r, 'z) transport \<Rightarrow> (int \<Rightarrow> ('a, 'z) world_scheme \<Rightarrow> ('a, 'z) world_scheme) \<Rightarrow>
   nat \<Rightarrow> config \<Rightarrow> ('a, 'z) world_scheme \<Rightarrow> 'a event list" where
  "attempt_events tr sl k config w =
     (case attempt_state tr sl k config w of
        (ck, wk) \<Rightarrow> snd (snd (snd (proxied_request tr ck wk))))"

definition failed_prefix ::
  "('a, 'x, 'r, 'z) transport \<Rightarrow> (int \<Rightarrow> ('a, 'z) world_scheme \<Rightarrow> ('a, 'z) world_scheme) \<Rightarrow>
   nat \<Rightarrow> config \<Rightarrow> ('a, 'z) world_scheme \<Rightarrow> 'a event list" where
  "failed_prefix tr sl m config w =
     concat (map (\<lambda>k. attempt_events tr sl k config w @ [Wait (1000 * (int k + 1))]) [0..<m])"

section \<open>Bounded-concurrency decorator\<close>

text \<open>
  One instance of \<open>createParallelRequestor\<close>. A call of \<open>makeRequest\<close> is named by its
  number (the first call is 0); a queue entry \<open>{config, resolve, reject}\<close> is the call's
  number and its config. \<open>promises\<close> holds the settlement of each call's promise, none
  while it is pending. \<open>inflight\<close> are the calls handed to the adapter whose request has
  not settled, \<open>finishing\<close> those whose request has settled and whose \<open>finally\<close>
  callback has not run yet. \<open>dequeued\<close> and \<open>dispatched\<close> log the order of the
  \<open>queue.shift()\<close> calls and of the dispatches.
\<close>

record ('a, 'x, 'r) parallel_state = "'a world" +
  queue :: "(nat \<times> config) list"
  runningCount :: int
  calls :: nat
  promises :: "nat \<rightharpoonup> ('x error, 'r) settled"
  inflight :: "nat set"
  finishing :: "nat set"
  dequeued :: "nat list"
  dispatched :: "(nat \<times> 'a \<times> config) list"

definition parallel_init :: "'a option \<Rightarrow> global_config \<Rightarrow> ('a, 'x, 'r) parallel_state" where
  "parallel_init a g =
     \<lparr>requestorInstance = a, globalConfig = g, queue = [], runningCount = 0, calls = 0,
      promises = Map.empty, inflight = {}, finishing = {}, dequeued = [], dispatched = []\<rparr>"

text \<open>A promise settles once: \<open>resolve\<close> and \<open>reject\<close> on a settled promise do nothing.\<close>

definition settle ::
  "nat \<Rightarrow> ('x error, 'r) settled \<Rightarrow> ('a, 'x, 'r) parallel_state \<Rightarrow> ('a, 'x, 'r) parallel_state" where
  "settle i v s = (if promises s i = None then s\<lparr>promises := (promises s)(i \<mapsto> v)\<rparr> else s)"

text \<open>
  \<open>processQueue\<close>, up to the point where the adapter's promise is created. The second
  component is the exception it throws, if any: \<open>useRequestor\<close> runs after the count
  was incremented and the entry was shifted.
\<close>

definition processQueue ::
  "int \<Rightarrow> ('a, 'x, 'r) parallel_state \<Rightarrow> ('a, 'x, 'r) parallel_state \<times> 'x error option" where
  "processQueue maxParallelCount s =
     (case queue s of
        [] \<Rightarrow> (s, None)
      | (i, config) # rest \<Rightarrow>
          (if runningCount s \<ge> maxParallelCount then (s, None)
           else
             let s1 = s\<lparr>runningCount := runningCount s + 1\<rparr>;
                 s2 = s1\<lparr>queue := rest, dequeued := dequeued s1 @ [i]\<rparr>
             in (case requestorInstance s2 of
                   None \<Rightarrow> (s2, Some NotInjected)
                 | Some a \<Rightarrow>
                     (s2\<lparr>inflight := insert i (inflight s2),
                         dispatched := dispatched s2
                           @ [(i, a, applyGlobalConfig (globalConfig s2) config)]\<rparr>,
                      None))))"

text \<open>
  What can happen to an instance: a call of \<open>makeRequest\<close>; the adapter's promise of
  call \<open>i\<close> settling, which runs \<open>resolve\<close> or \<open>reject\<close>; the \<open>finally\<close> callback
  of call \<open>i\<close>; and, from elsewhere in the program, \<open>inject\<close> and
  \<open>setGlobalConfig\<close>.
\<close>

datatype ('a, 'x, 'r) parallel_event =
    Call config
  | Settle nat "'x + 'r"
  | Finally nat
  | Inject "'a option"
  | SetGlobalConfig partial_config

text \<open>
  An exception thrown by \<open>processQueue\<close> inside the promise executor of
  \<open>makeRequest\<close> rejects the promise under construction; thrown inside the
  \<open>finally\<close> callback it rejects only the promise that \<open>finally\<close> returned, which
  nobody holds.
\<close>

definition parallel_step ::
  "int \<Rightarrow> ('a, 'x, 'r) parallel_event \<Rightarrow> ('a, 'x, 'r) parallel_state \<Rightarrow> ('a, 'x, 'r) parallel_state" where
  "parallel_step maxParallelCount ev s =
     (case ev of
        Call config \<Rightarrow>
          (let i = calls s;
               s1 = s\<lparr>calls := i + 1, queue := queue s @ [(i, config)]\<rparr>
           in case processQueue maxParallelCount s1 of
                (s2, None) \<Rightarrow> s2
              | (s2, Some e) \<Rightarrow> settle i (Rejected e) s2)
      | Settle i out \<Rightarrow>
          (if i \<in> inflight s then
             settle i (case out of Inl x \<Rightarrow> Rejected (TransportError x) | Inr r \<Rightarrow> Resolved r)
               (s\<lparr>inflight := inflight s - {i}, finishing := insert i (finishing s)\<rparr>)
           else s)
      | Finally i \<Rightarrow>
          (if i \<in> finishing s then
             fst (processQueue maxParallelCount
                    (s\<lparr>finishing := finishing s - {i}, runningCount := runningCount s - 1\<rparr>))
           else s)
      | Inject a \<Rightarrow> inject a s
      | SetGlobalConfig p \<Rightarrow> s\<lparr>globalConfig := setGlobalConfig (globalConfig s) p\<rparr>)"

fun parallel_run ::
  "int \<Rightarrow> ('a, 'x, 'r) parallel_event list \<Rightarrow> ('a, 'x, 'r) parallel_state \<Rightarrow> ('a, 'x, 'r) parallel_state" where
  "parallel_run maxParallelCount [] s = s"
| "parallel_run maxParallelCount (ev # evs) s =
     parallel_run maxParallelCount evs (parallel_step maxParallelCount ev s)"

text \<open>The slots counted in \<open>runningCount\<close> that no dispatched request holds.\<close>

definition leaked :: "('a, 'x, 'r) parallel_state \<Rightarrow> int" where
  "leaked s = runningCount s - int (card (inflight s)) - int (card (finishing s))"

text \<open>
  What holds of every state an instance can reach: the two sets are finite and disjoint and
  their members are counted in \<open>runningCount\<close>, which never exceeds the capacity;
  calls are dequeued in the order of their numbers and the queue holds the calls not yet
  dequeued, in order; only dequeued calls are in flight, dispatched or settled; the promise
  of a call in flight is pending; and the queue is empty unless every slot is taken.
\<close>

definition parallel_inv :: "int \<Rightarrow> ('a, 'x, 'r) parallel_state \<Rightarrow> bool" where
  "parallel_inv maxParallelCount s =
     (finite (inflight s) \<and> finite (finishing s) \<and> inflight s \<inter> finishing s = {}
      \<and> int (card (inflight s)) + int (card (finishing s)) \<le> runningCount s
      \<and> runningCount s \<le> maxParallelCount
      \<and> [0..<length (dequeued s)] = dequeued s
      \<and> [length (dequeued s)..<calls s] = map fst (queue s)
      \<and> length (dequeued s) \<le> calls s
      \<and> (\<forall>i \<in> inflight s \<union> finishing s. i < length (dequeued s))
      \<and> sorted_wrt (<) (map fst (dispatched s))
      \<and> (\<forall>i \<in> set (map fst (dispatched s)). i < length (dequeued s))
      \<and> (\<forall>i. promises s i \<noteq> None \<longrightarrow> i < length (dequeued s))
      \<and> (\<forall>i \<in> inflight s. promises s i = None)
      \<and> (queue s = [] \<or> maxParallelCount \<le> runningCount s))"

section \<open>Cache decorator\<close>

text \<open>The entry that \<open>makeRequest\<close> stores: \<open>{data: result, timestamp: Date.now()}\<close>.\<close>

record 'r cache_entry =
  entry_data :: 'r
  entry_timestamp :: int

text \<open>
  What \<open>makeRequest\<close> reads of the value that \<open>store.get\<close> gave it: \<open>cache.data\<close>,
  which is \<open>None\<close> where it is \<open>undefined\<close>, and the number that
  \<open>now - cache.timestamp\<close> subtracts, which is \<open>None\<close> where the difference is
  \<open>NaN\<close> (as for a value that has no \<open>timestamp\<close>).
\<close>

record 'r cached =
  cached_data :: "'r option"
  cached_timestamp :: "int option"

definition cached_of :: "'r cache_entry \<Rightarrow> 'r cached" where
  "cached_of e = \<lparr>cached_data = Some (entry_data e), cached_timestamp = Some (entry_timestamp e)\<rparr>"

text \<open>
  The world of one cache instance: the clock read by \<open>Date.now()\<close>, the \<open>Map\<close> of the
  instance's memory store, and the browser's \<open>localStorage\<close>: the texts it holds, whether
  it can be reached at all (every use of it throws when it cannot), and which
  \<open>setItem(key, text)\<close> it accepts (\<open>setItem\<close> throws when the quota is exceeded).
\<close>

record ('a, 'r) cache_world = "'a world" +
  dateNow :: int
  memoryStore :: "string \<rightharpoonup> 'r cache_entry"
  localStorage :: "string \<rightharpoonup> string"
  storageAvailable :: bool
  storageAccepts :: "string \<Rightarrow> string \<Rightarrow> bool"

text \<open>
  \<open>JSON.stringify\<close> and \<open>JSON.parse\<close> on cache entries are taken as given.
  \<open>JSON.stringify\<close> throws a \<open>TypeError\<close> for some values (\<open>None\<close>);
  \<open>JSON.parse\<close> throws a \<open>SyntaxError\<close>, gives \<open>null\<close>, or gives another value.
\<close>

datatype 'r parsed = NotJSON | ParsedNull | ParsedValue "'r cached"

record 'r json =
  to_json :: "'r cache_entry \<Rightarrow> string option"
  from_json :: "string \<Rightarrow> 'r parsed"

datatype store = MemoryStore | StorageStore

definition store_has :: "store \<Rightarrow> ('a, 'r) cache_world \<Rightarrow> string \<Rightarrow> 'x error + bool" where
  "store_has st w key =
     (case st of
        MemoryStore \<Rightarrow> Inr (memoryStore w key \<noteq> None)
      | StorageStore \<Rightarrow>
          (if \<not> storageAvailable w then Inl StorageError
           else Inr (localStorage w key \<noteq> None)))"

text \<open>\<open>value ? JSON.parse(value) : null\<close> for a text the storage holds; \<open>null\<close> is
  \<open>None\<close>.\<close>

definition parse_stored :: "'r json \<Rightarrow> string \<Rightarrow> 'x error + 'r cached option" where
  "parse_stored js v =
     (if v = [] then Inr None
      else (case from_json js v of
              NotJSON \<Rightarrow> Inl SyntaxError
            | ParsedNull \<Rightarrow> Inr None
            | ParsedValue c \<Rightarrow> Inr (Some c)))"

text \<open>\<open>get\<close>: the memory store answers \<open>undefined\<close> and the storage store \<open>null\<close>
  for a missing key (both \<open>None\<close>).\<close>

definition store_get ::
  "'r json \<Rightarrow> store \<Rightarrow> ('a, 'r) cache_world \<Rightarrow> string \<Rightarrow> 'x error + 'r cached option" where
  "store_get js st w key =
     (case st of
        MemoryStore \<Rightarrow> Inr (map_option cached_of (memoryStore w key))
      | StorageStore \<Rightarrow>
          (if \<not> storageAvailable w then Inl StorageError
           else (case localStorage w key of
                   None \<Rightarrow> Inr None
                 | Some v \<Rightarrow> parse_stored js v)))"

text \<open>\<open>set\<close>: \<open>localStorage.setItem(key, JSON.stringify(value))\<close> reaches the storage,
  then prints the entry, then writes; each step can throw.\<close>

definition store_set ::
  "'r json \<Rightarrow> store \<Rightarrow> string \<Rightarrow> 'r cache_entry \<Rightarrow> ('a, 'r) cache_world \<Rightarrow>
   'x error + ('a, 'r) cache_world" where
  "store_set js st key v w =
     (case st of
        MemoryStore \<Rightarrow> Inr (w\<lparr>memoryStore := (memoryStore w)(key \<mapsto> v)\<rparr>)
      | StorageStore \<Rightarrow>
          (if \<not> storageAvailable w then Inl StorageError
           else (case to_json js v of
                   None \<Rightarrow> Inl TypeError
                 | Some t \<Rightarrow>
                     (if storageAccepts w key t
                      then Inr (w\<lparr>localStorage := (localStorage w)(key \<mapsto> t)\<rparr>)
                      else Inl StorageError))))"

text \<open>\<open>useCacheStore\<close>: the probe writes the text \<open>test\<close> under the key \<open>test\<close> and
  removes the key; when either throws, the instance gets a memory store.\<close>

definition useCacheStore :: "bool \<Rightarrow> ('a, 'r) cache_world \<Rightarrow> store \<times> ('a, 'r) cache_world" where
  "useCacheStore isPersist w =
     (if \<not> isPersist then (MemoryStore, w\<lparr>memoryStore := Map.empty\<rparr>)
      else if storageAvailable w \<and> storageAccepts w ''test'' ''test''
           then (StorageStore, w\<lparr>localStorage := (localStorage w)(''test'' := None)\<rparr>)
           else (MemoryStore, w\<lparr>memoryStore := Map.empty\<rparr>))"

text \<open>The \<open>options\<close> argument, each key absent (\<open>None\<close>) or given, and the normalized
  options.\<close>

record 'r cache_options =
  o_key :: "(config \<Rightarrow> string) option"
  o_duration :: "int option"
  o_isValid :: "(string \<Rightarrow> config \<Rightarrow> 'r cached option \<Rightarrow> bool) option"
  o_persist :: "bool option"

record 'r normalized_options =
  n_key :: "config \<Rightarrow> string"
  n_duration :: int
  n_isValid :: "(string \<Rightarrow> config \<Rightarrow> 'r cached option \<Rightarrow> bool) option"
  n_persist :: bool

text \<open>A template literal prints \<open>undefined\<close> for a missing value.\<close>

definition template :: "string option \<Rightarrow> string" where
  "template v = (case v of None \<Rightarrow> ''undefined'' | Some t \<Rightarrow> t)"

definition default_key :: "config \<Rightarrow> string" where
  "default_key config = template (http_method config) @ ''-'' @ template (url config)"

definition normalize_options :: "'r cache_options \<Rightarrow> 'r normalized_options" where
  "normalize_options options =
     \<lparr>n_key = (case o_key options of None \<Rightarrow> default_key | Some k \<Rightarrow> k),
      n_duration = (if truthy_num (o_duration options)
                    then (case o_duration options of None \<Rightarrow> 1000 * 60 * 5 | Some d \<Rightarrow> d)
                    else 1000 * 60 * 5),
      n_isValid = o_isValid options,
      n_persist = (case o_persist options of None \<Rightarrow> False | Some b \<Rightarrow> b)\<rparr>"

text \<open>\<open>createCacheRequestor\<close>: the normalized options and the store of the new instance.\<close>

definition createCacheRequestor ::
  "'r cache_options \<Rightarrow> ('a, 'r) cache_world \<Rightarrow>
   ('r normalized_options \<times> store) \<times> ('a, 'r) cache_world" where
  "createCacheRequestor options w =
     (let normalizedOptions = normalize_options options in
      case useCacheStore (n_persist normalizedOptions) w of
        (st, w') \<Rightarrow> ((normalizedOptions, st), w'))"

text \<open>
  The first half of \<open>makeRequest\<close>: \<open>Inr (Some d)\<close> when it returns \<open>cache.data\<close>,
  which is \<open>d\<close>, \<open>Inr None\<close> when it goes on to send the request, \<open>Inl\<close> when it
  throws: \<open>store.has\<close> or \<open>store.get\<close> threw, or \<open>cache\<close> is \<open>null\<close> where a
  property of it is read.
\<close>

definition cache_lookup ::
  "'r json \<Rightarrow> 'r normalized_options \<Rightarrow> store \<Rightarrow> config \<Rightarrow> ('a, 'r) cache_world \<Rightarrow>
   'x error + 'r option option" where
  "cache_lookup js normalizedOptions st config w =
     (let key = n_key normalizedOptions config in
      case store_has st w key of
        Inl e \<Rightarrow> Inl e
      | Inr hasKey \<Rightarrow>
          (if hasKey then
             (case store_get js st w key of
                Inl e \<Rightarrow> Inl e
              | Inr cache \<Rightarrow>
                  (let now = dateNow w in
                   case n_isValid normalizedOptions of
                     Some isValid \<Rightarrow>
                       (if isValid key config cache
                        then (case cache of
                                None \<Rightarrow> Inl TypeError
                              | Some c \<Rightarrow> Inr (Some (cached_data c)))
                        else Inr None)
                   | None \<Rightarrow>
                       (case cache of
                          None \<Rightarrow> Inl TypeError
                        | Some c \<Rightarrow>
                            (if (case cached_timestamp c of
                                   None \<Rightarrow> False
                                 | Some t \<Rightarrow> now - t < n_duration normalizedOptions)
                             then Inr (Some (cached_data c))
                             else Inr None))))
           else Inr None))"

text \<open>
  \<open>makeRequest\<close>. It resolves with \<open>Some\<close> of the transport's result, or with
  \<open>cache.data\<close>; when \<open>store.set\<close> throws after the dispatch, the call rejects.
\<close>

definition cache_makeRequest ::
  "('a \<Rightarrow> config \<Rightarrow> ('a, 'r) cache_world \<Rightarrow> ('x + 'r) \<times> ('a, 'r) cache_world) \<Rightarrow> 'r json \<Rightarrow> 'r normalized_options \<Rightarrow> store \<Rightarrow>
   config \<Rightarrow> ('a, 'r) cache_world \<Rightarrow>
   ('x error, 'r option) settled \<times> config \<times> ('a, 'r) cache_world \<times> 'a event list" where
  "cache_makeRequest tr js normalizedOptions st config w =
     (case cache_lookup js normalizedOptions st config w of
        Inl e \<Rightarrow> (Rejected e, config, w, [])
      | Inr (Some d) \<Rightarrow> (Resolved d, config, w, [])
      | Inr None \<Rightarrow>
          (case useRequestor w :: 'x error + unit of
             Inl e \<Rightarrow> (Rejected e, config, w, [])
           | Inr req \<Rightarrow>
               (case proxied_request tr config w of
                  (Inl e, config', w', evs) \<Rightarrow> (Rejected e, config', w', evs)
                | (Inr result, config', w', evs) \<Rightarrow>
                    (case store_set js st (n_key normalizedOptions config)
                            \<lparr>entry_data = result, entry_timestamp = dateNow w'\<rparr> w' of
                       Inl e \<Rightarrow> (Rejected e, config', w', evs)
                     | Inr w'' \<Rightarrow> (Resolved (Some result), config', w'', evs)))))"


section \<open>Idempotent decorator\<close>

text \<open>\<open>Array.prototype.join\<close>: an element that is \<open>undefined\<close> is printed as the empty
  text.\<close>

fun join :: "string \<Rightarrow> string option list \<Rightarrow> string" where
  "join sep [] = []"
| "join sep [x] = (case x of None \<Rightarrow> [] | Some t \<Rightarrow> t)"
| "join sep (x # y # r) = (case x of None \<Rightarrow> [] | Some t \<Rightarrow> t) @ sep @ join sep (y # r)"

text \<open>The text an element contributes to \<open>join\<close>.\<close>

definition part :: "string option \<Rightarrow> string" where
  "part v = (case v of None \<Rightarrow> [] | Some t \<Rightarrow> t)"

text \<open>\<open>JSON.stringify\<close> on the values of \<open>jsval\<close>, starting with the decimal
  digits of a natural number.\<close>

definition digit :: "nat \<Rightarrow> char" where
  "digit n = ''0123456789abcdef'' ! (n mod 16)"

fun show_nat :: "nat \<Rightarrow> string" where
  "show_nat n = (if n < 10 then [digit n] else show_nat (n div 10) @ [digit (n mod 10)])"

text \<open>The text of a number: its sign and its decimal digits.\<close>

definition show_num :: "54 word \<Rightarrow> string" where
  "show_num n =
     (if sint n < 0 then ''-'' @ show_nat (nat (- sint n)) else show_nat (nat (sint n)))"

definition escape :: "char \<Rightarrow> string" where
  "escape c =
     (if c = CHR 0x22 then [CHR 0x5C, CHR 0x22]
      else if c = CHR 0x5C then [CHR 0x5C, CHR 0x5C]
      else if c = CHR 0x08 then [CHR 0x5C, CHR ''b'']
      else if c = CHR 0x0C then [CHR 0x5C, CHR ''f'']
      else if c = CHR 0x0A then [CHR 0x5C, CHR ''n'']
      else if c = CHR 0x0D then [CHR 0x5C, CHR ''r'']
      else if c = CHR 0x09 then [CHR 0x5C, CHR ''t'']
      else if (of_char c :: nat) < 32
           then [CHR 0x5C, CHR ''u'', CHR ''0'', CHR ''0'',
                 digit (of_char c div 16), digit (of_char c mod 16)]
      else [c])"

definition quote :: "string \<Rightarrow> string" where
  "quote t = [CHR 0x22] @ concat (map escape t) @ [CHR 0x22]"

text \<open>
  An array index is a key that is the decimal text, with no sign and no leading zero, of a
  number below \<open>2^32 - 1\<close>.
\<close>

definition digit_of :: "char \<Rightarrow> nat option" where
  "digit_of c =
     (if 48 \<le> (of_char c :: nat) \<and> (of_char c :: nat) \<le> 57 then Some (of_char c - 48) else None)"

fun read_digits :: "nat \<Rightarrow> string \<Rightarrow> nat option" where
  "read_digits acc [] = Some acc"
| "read_digits acc (c # cs) =
     (case digit_of c of None \<Rightarrow> None | Some d \<Rightarrow> read_digits (acc * 10 + d) cs)"

definition array_index :: "string \<Rightarrow> nat option" where
  "array_index k =
     (if k = [] then None
      else (case read_digits 0 k of
              None \<Rightarrow> None
            | Some n \<Rightarrow> if show_nat n = k \<and> n < 4294967295 then Some n else None))"

text \<open>
  The properties an object has after its definitions were carried out in order: defining
  a key again replaces the value and keeps the place of the key.
\<close>

fun assign :: "(string \<times> 'v) list \<Rightarrow> string \<Rightarrow> 'v \<Rightarrow> (string \<times> 'v) list" where
  "assign [] k v = [(k, v)]"
| "assign (p # ps) k v = (if fst p = k then (k, v) # ps else p # assign ps k v)"

definition own_properties :: "(string \<times> 'v) list \<Rightarrow> (string \<times> 'v) list" where
  "own_properties kvs = foldl (\<lambda>ps kv. assign ps (fst kv) (snd kv)) [] kvs"

text \<open>
  The order in which the properties of an object are listed: the array indices in
  ascending order, then the other keys in the order in which they were first defined.
\<close>

definition index_of :: "string \<times> 'v \<Rightarrow> nat" where
  "index_of p = (case array_index (fst p) of None \<Rightarrow> 0 | Some n \<Rightarrow> n)"

definition enumerate_own :: "(string \<times> 'v) list \<Rightarrow> (string \<times> 'v) list" where
  "enumerate_own ps =
     sort_key index_of (filter (\<lambda>p. array_index (fst p) \<noteq> None) ps)
     @ filter (\<lambda>p. array_index (fst p) = None) ps"

text \<open>
  \<open>JSON.stringify\<close>: \<open>undefined\<close> has no text (\<open>None\<close>), an array prints it as
  \<open>null\<close>, and an object leaves out a property whose value is \<open>undefined\<close>.
\<close>

fun json_stringify :: "jsval \<Rightarrow> string option" where
  "json_stringify JUndefined = None"
| "json_stringify JNull = Some ''null''"
| "json_stringify (JBool b) = Some (if b then ''true'' else ''false'')"
| "json_stringify (JNum n) = Some (show_num n)"
| "json_stringify (JStr t) = Some (quote t)"
| "json_stringify (JArr xs) =
     Some (''['' @ join '','' (map (\<lambda>x. case json_stringify x of
                                          None \<Rightarrow> Some ''null''
                                        | Some t \<Rightarrow> Some t) xs) @ '']'')"
| "json_stringify (JObj kvs) =
     Some (''{'' @ join '',''
             (concat (map (\<lambda>p. case snd p of
                                  None \<Rightarrow> []
                                | Some t \<Rightarrow> [Some (quote (fst p) @ '':'' @ t)])
                        (enumerate_own (own_properties
                           (map (\<lambda>kv. (fst kv, json_stringify (snd kv))) kvs))))) @ ''}'')"

text \<open>The mapping from keys to values that an object is; any other value has no
  properties here.\<close>

definition properties :: "jsval \<Rightarrow> (string \<rightharpoonup> jsval)" where
  "properties v = (case v of JObj kvs \<Rightarrow> map_of (own_properties kvs) | _ \<Rightarrow> Map.empty)"

text \<open>The default key function of \<open>createIdempotentRequest\<close>.\<close>

definition idempotent_key :: "config \<Rightarrow> string" where
  "idempotent_key config =
     (let keyParts = [http_method config, url config];
          keyParts = (if truthy (params config)
                      then keyParts @ [json_stringify (params config)] else keyParts);
          keyParts = (if truthy (data config)
                      then keyParts @ [json_stringify (data config)] else keyParts)
      in join ''-'' keyParts)"

definition createIdempotentRequest ::
  "(config \<Rightarrow> string) option \<Rightarrow> ('a, 'r) cache_world \<Rightarrow>
   ('r normalized_options \<times> store) \<times> ('a, 'r) cache_world" where
  "createIdempotentRequest genKey w =
     createCacheRequestor
       \<lparr>o_key = Some (case genKey of None \<Rightarrow> idempotent_key | Some k \<Rightarrow> k),
        o_duration = Some (1000 * 60 * 60),
        o_isValid = None,
        o_persist = Some False\<rparr> w"


section \<open>Concrete worlds and transports\<close>

text \<open>A world that counts the requests its server has answered.\<close>

record 'a counting_world = "'a world" +
  served :: nat

text \<open>A transport that rejects the first \<open>n\<close> requests and resolves every later one.\<close>

definition flaky ::
  "nat \<Rightarrow> nat \<Rightarrow> config \<Rightarrow> nat counting_world \<Rightarrow> (string + string) \<times> nat counting_world" where
  "flaky n a c w =
     (if served w < n then (Inl ''down'', w\<lparr>served := served w + 1\<rparr>)
      else (Inr ''ok'', w\<lparr>served := served w + 1\<rparr>))"

text \<open>A transport that rejects every request.\<close>

definition always_down ::
  "nat \<Rightarrow> config \<Rightarrow> nat counting_world \<Rightarrow> (string + string) \<times> nat counting_world" where
  "always_down a c w = (Inl ''down'', w\<lparr>served := served w + 1\<rparr>)"

text \<open>Nothing else runs while a timer is pending.\<close>

definition idle :: "int \<Rightarrow> nat counting_world \<Rightarrow> nat counting_world" where
  "idle d w = w"

text \<open>While the timer is pending, the application raises the global timeout to 5000 and
  replaces the global \<open>Authorization\<close> header.\<close>

definition new_settings :: partial_config where
  "new_settings =
     \<lparr>p_baseURL = None,
      p_headers = Some (Some [''Authorization'' \<mapsto> ''new'']),
      p_timeout = Some (Some 5000)\<rparr>"

definition reconfigure :: "int \<Rightarrow> nat counting_world \<Rightarrow> nat counting_world" where
  "reconfigure d w = w\<lparr>globalConfig := setGlobalConfig (globalConfig w) new_settings\<rparr>"

definition example_global :: global_config where
  "example_global =
     \<lparr>baseURL = Some ''http://a.com'',
      gheaders = Some [''Authorization'' \<mapsto> ''old''],
      gtimeout = Some 1000\<rparr>"

definition root_global :: global_config where
  "root_global = \<lparr>baseURL = Some ''/'', gheaders = Some Map.empty, gtimeout = Some 0\<rparr>"

definition example_config :: config where
  "example_config =
     \<lparr>http_method = Some ''get'', url = Some ''/x'', headers = None,
      params = JUndefined, data = JUndefined, timeout = None\<rparr>"

definition absolute_config :: config where
  "absolute_config = example_config\<lparr>url := Some ''http://a.com/x''\<rparr>"

definition example_world :: "nat counting_world" where
  "example_world = \<lparr>requestorInstance = Some 7, globalConfig = example_global, served = 0\<rparr>"

definition empty_world :: "nat counting_world" where
  "empty_world = \<lparr>requestorInstance = None, globalConfig = initialGlobalConfig, served = 0\<rparr>"

definition root_world :: "nat counting_world" where
  "root_world = \<lparr>requestorInstance = Some 7, globalConfig = root_global, served = 0\<rparr>"

definition trace_only :: "string \<rightharpoonup> string" where
  "trace_only = [''X-Trace'' \<mapsto> ''1'']"

definition token_headers :: partial_config where
  "token_headers = \<lparr>p_baseURL = None, p_headers = Some (Some trace_only), p_timeout = None\<rparr>"

text \<open>The value of one header of a headers field.\<close>

definition header_of :: "(string \<rightharpoonup> string) option \<Rightarrow> string \<Rightarrow> string option" where
  "header_of h k = spread h k"

text \<open>Cache worlds, their stores, a transport that answers after 20 ms, and requests for
  the idempotent decorator.\<close>

text \<open>A codec for entries whose data is a text: the timestamp in decimal, a colon, the
  data.\<close>

definition plain_json :: "string json" where
  "plain_json =
     \<lparr>to_json = (\<lambda>e. Some (show_nat (nat (entry_timestamp e)) @ '':'' @ entry_data e)),
      from_json = (\<lambda>t. if t = ''null'' then ParsedNull
                        else (case read_digits 0 (takeWhile (\<lambda>c. c \<noteq> CHR '':'') t) of
                                None \<Rightarrow> NotJSON
                              | Some n \<Rightarrow>
                                  ParsedValue
                                    \<lparr>cached_data = Some (drop 1 (dropWhile (\<lambda>c. c \<noteq> CHR '':'') t)),
                                     cached_timestamp = Some (int n)\<rparr>))\<rparr>"



text \<open>A storage with room for every text, and one whose quota leaves room for four
  characters.\<close>

definition roomy :: "string \<Rightarrow> string \<Rightarrow> bool" where
  "roomy key t = True"


definition cache_world_at :: "int \<Rightarrow> (string \<rightharpoonup> string cache_entry) \<Rightarrow> (nat, string) cache_world" where
  "cache_world_at t m =
     \<lparr>requestorInstance = Some 7, globalConfig = example_global, dateNow = t,
      memoryStore = m, localStorage = Map.empty, storageAvailable = False,
      storageAccepts = roomy\<rparr>"


definition payload_entry :: "string cache_entry" where
  "payload_entry = \<lparr>entry_data = ''payload'', entry_timestamp = 120\<rparr>"

definition responding ::
  "nat \<Rightarrow> config \<Rightarrow> (nat, string) cache_world \<Rightarrow> (string + string) \<times> (nat, string) cache_world" where
  "responding a c w = (Inr ''payload'', w\<lparr>dateNow := dateNow w + 20\<rparr>)"


definition no_entry :: "string \<rightharpoonup> string cache_entry" where
  "no_entry = Map.empty"








definition post_params :: config where
  "post_params = example_config\<lparr>http_method := Some ''post'', params := JObj [(''a'', JNum 1)]\<rparr>"

definition post_data :: config where
  "post_data = example_config\<lparr>http_method := Some ''post'', data := JObj [(''a'', JNum 1)]\<rparr>"

definition post_config :: config where
  "post_config = example_config\<lparr>http_method := Some ''post''\<rparr>"

definition post_data_again :: config where
  "post_data_again = post_data\<lparr>timeout := Some 5\<rparr>"

text \<open>The same two parameters, written in the two orders.\<close>

definition post_ab :: config where
  "post_ab = post_config\<lparr>params := JObj [(''a'', JStr ''x''), (''b'', JStr ''y'')]\<rparr>"

definition post_ba :: config where
  "post_ba = post_config\<lparr>params := JObj [(''b'', JStr ''y''), (''a'', JStr ''x'')]\<rparr>"

definition idempotent_options :: "string normalized_options" where
  "idempotent_options = fst (fst (createIdempotentRequest None (cache_world_at 100 no_entry)))"

definition post_entry :: "string \<rightharpoonup> string cache_entry" where
  "post_entry = [idempotent_key post_data \<mapsto> payload_entry]"


text \<open>Capacity 1 and no adapter: a call, then \<open>inject\<close> of adapter 7, then two more
  calls; the request of the second call, were it ever dispatched, would settle and finish.\<close>

definition stuck_run :: "(nat, string, string) parallel_event list" where
  "stuck_run =
     [Call example_config, Inject (Some 7), Call example_config, Call example_config,
      Settle 1 (Inr ''ok''), Finally 1]"

definition unconfigured :: "(nat, string, string) parallel_state" where
  "unconfigured = parallel_init None example_global"

definition two_calls :: "(nat, string, string) parallel_event list" where
  "two_calls = [Call example_config, Call example_config]"

definition later_events :: "(nat, string, string) parallel_event list" where
  "later_events = [Inject (Some 7), Call example_config, Call example_config]"

text \<open>The \<open>Authorization\<close> header a config carries.\<close>

definition authorization :: "config \<Rightarrow> string option" where
  "authorization c = header_of (headers c) ''Authorization''"

section \<open>Properties of the global configuration\<close>

lemma endsWith_suffix: "endsWith s t \<longleftrightarrow> suffix t s"
  unfolding endsWith_def suffix_def
  by (metis append_eq_conv_conj append_take_drop_id diff_add_inverse2 length_append le_add2 length_drop)

lemma startsWith_prefix: "startsWith s t \<longleftrightarrow> prefix t s"
  unfolding startsWith_def prefix_def
  by (metis append_eq_conv_conj append_take_drop_id)

lemma joinURL_boundary:
  assumes "\<not> endsWith b ''//''" and "\<not> startsWith u ''//''"
  shows "\<exists>b0 u0. joinURL b u = b0 @ ''/'' @ u0 \<and> \<not> endsWith b0 ''/'' \<and> \<not> startsWith u0 ''/''
           \<and> (b = b0 \<or> b = b0 @ ''/'') \<and> (u = u0 \<or> u = ''/'' @ u0)"
proof -
  obtain b0 where b0: "(if endsWith b ''/'' then b else b @ ''/'') = b0 @ ''/''"
     "\<not> endsWith b0 ''/''" "b = b0 \<or> b = b0 @ ''/''"
  proof (cases "endsWith b ''/''")
    case True
    then obtain p where p: "b = p @ ''/''" by (auto simp: endsWith_suffix suffix_def)
    have "\<not> endsWith p ''/''"
    proof
      assume "endsWith p ''/''"
      then obtain q where "p = q @ ''/''" by (auto simp: endsWith_suffix suffix_def)
      then have "b = q @ ''//''" using p by simp
      then show False using assms(1) by (auto simp: endsWith_suffix suffix_def)
    qed
    then show ?thesis using that [of p] True p by simp
  next
    case False
    then show ?thesis using that [of b] by simp
  qed
  obtain u0 where u0: "(if startsWith u ''/'' then slice1 u else u) = u0"
     "\<not> startsWith u0 ''/''" "u = u0 \<or> u = ''/'' @ u0"
  proof (cases "startsWith u ''/''")
    case True
    then obtain r where r: "u = ''/'' @ r" by (auto simp: startsWith_prefix prefix_def)
    have "\<not> startsWith r ''/''"
    proof
      assume "startsWith r ''/''"
      then obtain q where "r = ''/'' @ q" by (auto simp: startsWith_prefix prefix_def)
      then have "u = ''//'' @ q" using r by simp
      then show False using assms(2) by (auto simp: startsWith_prefix prefix_def)
    qed
    then show ?thesis using that [of r] True r by (simp add: slice1_def)
  next
    case False
    then show ?thesis using that [of u] by simp
  qed
  have "joinURL b u = b0 @ ''/'' @ u0"
    using b0(1) u0(1) by (simp add: joinURL_def Let_def)
  then show ?thesis using b0 u0 by blast
qed

lemma applyGlobalConfig_url:
  "url (applyGlobalConfig g c) =
     (if truthy_str (baseURL g) \<and> truthy_str (url c)
      then Some (joinURL (the (baseURL g)) (the (url c))) else url c)"
  by (cases "baseURL g"; cases "url c"; cases "gheaders g")
     (simp_all add: applyGlobalConfig_def Let_def)

lemma applyGlobalConfig_headers:
  "headers (applyGlobalConfig g c) =
     (case gheaders g of None \<Rightarrow> headers c | Some gh \<Rightarrow> Some (gh ++ spread (headers c)))"
  by (cases "baseURL g"; cases "url c"; cases "gheaders g")
     (simp_all add: applyGlobalConfig_def Let_def)

lemma applyGlobalConfig_timeout:
  "timeout (applyGlobalConfig g c) =
     (if truthy_num (gtimeout g) \<and> \<not> truthy_num (timeout c) then gtimeout g else timeout c)"
  by (cases "baseURL g"; cases "url c"; cases "gheaders g")
     (auto simp: applyGlobalConfig_def Let_def)

lemma proxied_request_config:
  "fst (snd (proxied_request tr c w)) = applyGlobalConfig (globalConfig w) c"
  by (cases "requestorInstance w")
     (auto simp: proxied_request_def Let_def split: prod.splits sum.splits)

lemma proxied_request_dispatches:
  assumes "requestorInstance w = Some a"
  shows "snd (snd (snd (proxied_request tr c w))) = [Dispatch a (applyGlobalConfig (globalConfig w) c)]"
  using assms by (auto simp: proxied_request_def Let_def split: prod.splits sum.splits)

lemma waits_simps [simp]:
  "waits [] = []" "waits (Dispatch a c # t) = waits t" "waits (Wait d # t) = d # waits t"
  by (simp_all add: waits_def)

lemma dispatches_simps [simp]:
  "dispatches [] = []" "dispatches (Dispatch a c # t) = (a, c) # dispatches t"
  "dispatches (Wait d # t) = dispatches t"
  by (simp_all add: dispatches_def)

lemma waits_append [simp]: "waits (s @ t) = waits s @ waits t"
  by (simp add: waits_def)

lemma dispatches_append [simp]: "dispatches (s @ t) = dispatches s @ dispatches t"
  by (simp add: dispatches_def)

text \<open>
  C1, as the code has it. A request dispatched while \<open>baseURL\<close> is a non-empty text \<open>b\<close>
  is handed to the adapter with the config object that \<open>applyGlobalConfig\<close> produced.
  If the request's url is a non-empty text \<open>u\<close>, the dispatched url is \<open>b\<close>, with a
  slash appended unless \<open>b\<close> ends with one, followed by \<open>u\<close> without one leading slash;
  this holds whether or not \<open>u\<close> already starts with \<open>b\<close>. Unless \<open>b\<close> ends with two
  slashes or \<open>u\<close> starts with two, exactly one slash separates a part that does not end
  with a slash from a part that does not start with one. An absent or empty url is left
  as it is.
\<close>

theorem dispatched_url_joined:
  assumes "requestorInstance w = Some a"
    and "baseURL (globalConfig w) = Some b" and "b \<noteq> []"
  shows "dispatches (snd (snd (snd (proxied_request tr c w))))
           = [(a, fst (snd (proxied_request tr c w)))]
       \<and> (\<forall>u. url c = Some u \<and> u \<noteq> [] \<longrightarrow>
             url (fst (snd (proxied_request tr c w)))
               = Some ((if endsWith b ''/'' then b else b @ ''/'')
                       @ (if startsWith u ''/'' then drop 1 u else u))
           \<and> (\<not> endsWith b ''//'' \<and> \<not> startsWith u ''//'' \<longrightarrow>
                (\<exists>b0 u0. url (fst (snd (proxied_request tr c w))) = Some (b0 @ ''/'' @ u0)
                   \<and> \<not> endsWith b0 ''/'' \<and> \<not> startsWith u0 ''/''
                   \<and> (b = b0 \<or> b = b0 @ ''/'') \<and> (u = u0 \<or> u = ''/'' @ u0))))
       \<and> (url c = None \<or> url c = Some [] \<longrightarrow> url (fst (snd (proxied_request tr c w))) = url c)"
proof -
  let ?c' = "applyGlobalConfig (globalConfig w) c"
  have c': "fst (snd (proxied_request tr c w)) = ?c'"
    by (rule proxied_request_config)
  have d: "dispatches (snd (snd (snd (proxied_request tr c w)))) = [(a, ?c')]"
    by (simp add: proxied_request_dispatches [OF assms(1)])
  have u: "url ?c' = Some (joinURL b u)" if "url c = Some u" "u \<noteq> []" for u
    using that assms(2,3) by (simp add: applyGlobalConfig_url)
  have e: "url ?c' = url c" if "url c = None \<or> url c = Some []"
    using that by (auto simp: applyGlobalConfig_url)
  have j: "joinURL b u = (if endsWith b ''/'' then b else b @ ''/'')
                                @ (if startsWith u ''/'' then drop 1 u else u)" for u
    by (simp add: joinURL_def Let_def slice1_def)
  have b: "\<exists>b0 u0. url ?c' = Some (b0 @ ''/'' @ u0)
                       \<and> \<not> endsWith b0 ''/'' \<and> \<not> startsWith u0 ''/''
                       \<and> (b = b0 \<or> b = b0 @ ''/'') \<and> (u = u0 \<or> u = ''/'' @ u0)"
    if "url c = Some u" "u \<noteq> []" "\<not> endsWith b ''//''" "\<not> startsWith u ''//''" for u
    using joinURL_boundary [OF that(3,4)] u [OF that(1,2)] by simp
  show ?thesis
    unfolding c' using d u b e j by (intro conjI allI impI) auto
qed

theorem dispatched_url_joined_witness:
  "requestorInstance example_world = Some 7
   \<and> baseURL (globalConfig example_world) = Some ''http://a.com''
   \<and> url example_config = Some ''/x''
   \<and> dispatches (snd (snd (snd (proxied_request always_down example_config example_world))))
       = [(7, fst (snd (proxied_request always_down example_config example_world)))]
   \<and> url (fst (snd (proxied_request always_down example_config example_world)))
       = Some ''http://a.com/x''"
proof -
  have h: "requestorInstance example_world = Some 7"
    "baseURL (globalConfig example_world) = Some ''http://a.com''" "''http://a.com'' \<noteq> []"
    by (simp_all add: example_world_def example_global_def)
  have u: "url example_config = Some ''/x''" by (simp add: example_config_def)
  show ?thesis
    using dispatched_url_joined [OF h, of always_down example_config] h u
    by (simp add: endsWith_def startsWith_def)
qed

theorem absolute_url_prefixed_again:
  "baseURL example_global = Some ''http://a.com''
   \<and> url absolute_config = Some ''http://a.com/x''
   \<and> startsWith ''http://a.com/x'' ''http://a.com''
   \<and> url (applyGlobalConfig example_global absolute_config) = Some ''http://a.com/http://a.com/x''
   \<and> url (applyGlobalConfig example_global absolute_config) \<noteq> url absolute_config"
  by (simp add: applyGlobalConfig_url example_global_def absolute_config_def example_config_def
        joinURL_def endsWith_def startsWith_def slice1_def)

text \<open>
  C2, as the code has it. \<open>setGlobalConfig\<close> replaces each top-level field that the
  argument carries and leaves the others. The headers field is such a field: it is
  replaced as a whole by the argument's headers, and no header of the stored
  configuration survives unless the argument repeats it.
\<close>

theorem setGlobalConfig_replaces_fields:
  "(\<forall>v. p_baseURL p = Some v \<longrightarrow> baseURL (setGlobalConfig g p) = v)
   \<and> (p_baseURL p = None \<longrightarrow> baseURL (setGlobalConfig g p) = baseURL g)
   \<and> (\<forall>v. p_timeout p = Some v \<longrightarrow> gtimeout (setGlobalConfig g p) = v)
   \<and> (p_timeout p = None \<longrightarrow> gtimeout (setGlobalConfig g p) = gtimeout g)
   \<and> (\<forall>h. p_headers p = Some h \<longrightarrow> gheaders (setGlobalConfig g p) = h)
   \<and> (p_headers p = None \<longrightarrow> gheaders (setGlobalConfig g p) = gheaders g)"
  by (simp add: setGlobalConfig_def)

theorem setGlobalConfig_replaces_fields_witness:
  "p_baseURL token_headers = None
   \<and> p_timeout new_settings = Some (Some 5000)
   \<and> baseURL (setGlobalConfig example_global token_headers) = Some ''http://a.com''
   \<and> gtimeout (setGlobalConfig example_global token_headers) = Some 1000
   \<and> gtimeout (setGlobalConfig example_global new_settings) = Some 5000
   \<and> header_of (gheaders (setGlobalConfig example_global token_headers)) ''X-Trace'' = Some ''1''"
  using setGlobalConfig_replaces_fields [of token_headers example_global]
    setGlobalConfig_replaces_fields [of new_settings example_global]
  by (simp add: token_headers_def trace_only_def new_settings_def example_global_def
        header_of_def spread_def)

theorem stored_header_dropped:
  "header_of (gheaders example_global) ''Authorization'' = Some ''old''
   \<and> p_headers token_headers = Some (Some trace_only)
   \<and> header_of (Some trace_only) ''Authorization'' = None
   \<and> header_of (gheaders (setGlobalConfig example_global token_headers)) ''Authorization'' = None"
  by (simp add: setGlobalConfig_def token_headers_def trace_only_def example_global_def
        header_of_def spread_def)

section \<open>Properties of the retry decorator\<close>

lemma proxied_request_fail:
  assumes "requestorInstance w = Some a"
    and "fst (tr a (applyGlobalConfig (globalConfig w) c) w) = Inl x"
  shows "proxied_request tr c w =
     (Inl (TransportError x), applyGlobalConfig (globalConfig w) c,
      snd (tr a (applyGlobalConfig (globalConfig w) c) w),
      [Dispatch a (applyGlobalConfig (globalConfig w) c)])"
  using assms by (cases "tr a (applyGlobalConfig (globalConfig w) c) w") (simp add: proxied_request_def Let_def)

lemma proxied_request_ok:
  assumes "requestorInstance w = Some a"
    and "fst (tr a (applyGlobalConfig (globalConfig w) c) w) = Inr r"
  shows "proxied_request tr c w =
     (Inr r, applyGlobalConfig (globalConfig w) c,
      snd (tr a (applyGlobalConfig (globalConfig w) c) w),
      [Dispatch a (applyGlobalConfig (globalConfig w) c)])"
  using assms by (cases "tr a (applyGlobalConfig (globalConfig w) c) w") (simp add: proxied_request_def Let_def)

lemma retry_loop_step_fail:
  assumes "attempt_state tr sl k config w = (ck, wk)"
    and "transport_outcome tr sl k config w = Some (Inl x)"
    and "int k + 1 < maxCount"
  shows "retry_loop tr sl maxCount (int k) ck wk t =
         retry_loop tr sl maxCount (int (Suc k))
           (fst (attempt_state tr sl (Suc k) config w)) (snd (attempt_state tr sl (Suc k) config w))
           (t @ attempt_events tr sl k config w @ [Wait (1000 * (int k + 1))])"
proof -
  from assms(1,2) obtain a where a: "requestorInstance wk = Some a"
    and f: "fst (tr a (applyGlobalConfig (globalConfig wk) ck) wk) = Inl x"
    by (auto simp: transport_outcome_def split: option.splits)
  have pr: "proxied_request tr ck wk =
     (Inl (TransportError x), applyGlobalConfig (globalConfig wk) ck,
      snd (tr a (applyGlobalConfig (globalConfig wk) ck) wk),
      [Dispatch a (applyGlobalConfig (globalConfig wk) ck)])"
    using a f by (rule proxied_request_fail)
  show ?thesis
    using assms(1,3)
    by (subst retry_loop.simps) (simp add: pr attempt_events_def add.commute)
qed

lemma retry_loop_prefix:
  assumes "\<forall>j<m. \<exists>x. transport_outcome tr sl j config w = Some (Inl x)"
    and "int m < maxCount"
  shows "retry_loop tr sl maxCount 0 config w [] =
         retry_loop tr sl maxCount (int m)
           (fst (attempt_state tr sl m config w)) (snd (attempt_state tr sl m config w))
           (failed_prefix tr sl m config w)"
  using assms
proof (induction m)
  case 0
  then show ?case by (simp add: failed_prefix_def)
next
  case (Suc m)
  then have ih: "retry_loop tr sl maxCount 0 config w [] =
         retry_loop tr sl maxCount (int m)
           (fst (attempt_state tr sl m config w)) (snd (attempt_state tr sl m config w))
           (failed_prefix tr sl m config w)" by simp
  from Suc.prems obtain x where x: "transport_outcome tr sl m config w = Some (Inl x)" by blast
  have st: "attempt_state tr sl m config w =
     (fst (attempt_state tr sl m config w), snd (attempt_state tr sl m config w))" by simp
  have lt: "int m + 1 < maxCount" using Suc.prems by simp
  show ?case
    unfolding ih retry_loop_step_fail [OF st x lt]
    by (simp add: failed_prefix_def)
qed


lemma attempt_events_single:
  assumes "transport_outcome tr sl k config w = Some out"
  shows "\<exists>a c. attempt_events tr sl k config w = [Dispatch a c]"
proof -
  obtain ck wk where st: "attempt_state tr sl k config w = (ck, wk)" by (cases "attempt_state tr sl k config w")
  with assms obtain a where a: "requestorInstance wk = Some a"
    by (auto simp: transport_outcome_def split: option.splits)
  show ?thesis
    using st a
    by (cases "tr a (applyGlobalConfig (globalConfig wk) ck) wk"; cases "fst (tr a (applyGlobalConfig (globalConfig wk) ck) wk)")
       (auto simp: attempt_events_def proxied_request_def Let_def)
qed

lemma failed_prefix_Suc:
  "failed_prefix tr sl (Suc m) config w =
   failed_prefix tr sl m config w @ attempt_events tr sl m config w @ [Wait (1000 * (int m + 1))]"
  by (simp add: failed_prefix_def)

lemma waits_failed_prefix:
  assumes "\<forall>j<m. \<exists>out. transport_outcome tr sl j config w = Some out"
  shows "waits (failed_prefix tr sl m config w) = map (\<lambda>k. 1000 * (int k + 1)) [0..<m]
       \<and> length (dispatches (failed_prefix tr sl m config w)) = m"
  using assms
proof (induction m)
  case 0
  then show ?case by (simp add: failed_prefix_def waits_def dispatches_def)
next
  case (Suc m)
  then obtain out where "transport_outcome tr sl m config w = Some out" by blast
  then obtain a c where "attempt_events tr sl m config w = [Dispatch a c]"
    using attempt_events_single by blast
  then show ?case using Suc by (simp add: failed_prefix_Suc)
qed

lemma retry_loop_last_ok:
  assumes "attempt_state tr sl k config w = (ck, wk)"
    and "transport_outcome tr sl k config w = Some (Inr r)"
    and "int k < maxCount"
  shows "fst (retry_loop tr sl maxCount (int k) ck wk t) = Resolved (Some r)
       \<and> snd (snd (snd (retry_loop tr sl maxCount (int k) ck wk t))) = t @ attempt_events tr sl k config w"
proof -
  from assms(1,2) obtain a where a: "requestorInstance wk = Some a"
    and f: "fst (tr a (applyGlobalConfig (globalConfig wk) ck) wk) = Inr r"
    by (auto simp: transport_outcome_def split: option.splits)
  have pr: "proxied_request tr ck wk =
     (Inr r, applyGlobalConfig (globalConfig wk) ck,
      snd (tr a (applyGlobalConfig (globalConfig wk) ck) wk),
      [Dispatch a (applyGlobalConfig (globalConfig wk) ck)])"
    using a f by (rule proxied_request_ok)
  show ?thesis
    using assms(1,3)
    by (subst (1 2) retry_loop.simps) (simp add: pr attempt_events_def)
qed

lemma retry_loop_last_fail:
  assumes "attempt_state tr sl k config w = (ck, wk)"
    and "transport_outcome tr sl k config w = Some (Inl x)"
    and "int k < maxCount" and "maxCount \<le> int k + 1"
  shows "fst (retry_loop tr sl maxCount (int k) ck wk t) = Rejected (TransportError x)
       \<and> snd (snd (snd (retry_loop tr sl maxCount (int k) ck wk t))) = t @ attempt_events tr sl k config w"
proof -
  from assms(1,2) obtain a where a: "requestorInstance wk = Some a"
    and f: "fst (tr a (applyGlobalConfig (globalConfig wk) ck) wk) = Inl x"
    by (auto simp: transport_outcome_def split: option.splits)
  have pr: "proxied_request tr ck wk =
     (Inl (TransportError x), applyGlobalConfig (globalConfig wk) ck,
      snd (tr a (applyGlobalConfig (globalConfig wk) ck) wk),
      [Dispatch a (applyGlobalConfig (globalConfig wk) ck)])"
    using a f by (rule proxied_request_fail)
  show ?thesis
    using assms(1,3,4)
    by (subst (1 2) retry_loop.simps) (simp add: pr attempt_events_def)
qed

lemma retry_makeRequest_injected:
  assumes "transport_outcome tr sl 0 config w = Some out"
  shows "retry_makeRequest tr sl maxCount config w = retry_loop tr sl maxCount 0 config w []"
  using assms by (auto simp: retry_makeRequest_def useRequestor_def transport_outcome_def split: option.splits)


text \<open>
  C4. Let \<open>maxCount \<ge> 1\<close>. If the transport rejects each of the first
  \<open>maxCount - 1\<close> attempts and resolves the last with \<open>r\<close>, the call resolves with
  \<open>r\<close>. If the transport rejects every attempt, the last with \<open>e\<close>, the call rejects
  with \<open>e\<close>; its events are, for each attempt but the last, the dispatch followed by a
  wait, and then the last dispatch: \<open>maxCount\<close> dispatches in all, and the waits are
  1000 ms times 1, 2, ..., \<open>maxCount - 1\<close>, the number of failures so far.
\<close>

theorem retry_resolves_or_rejects:
  fixes tr :: "('a, 'x, 'r, 'z) transport"
  assumes "1 \<le> maxCount"
  shows "((\<forall>k < nat maxCount - 1. \<exists>x. transport_outcome tr sl k config w = Some (Inl x))
          \<and> transport_outcome tr sl (nat maxCount - 1) config w = Some (Inr r)
          \<longrightarrow> fst (retry_makeRequest tr sl maxCount config w) = Resolved (Some r))
       \<and> ((\<forall>k < nat maxCount - 1. \<exists>x. transport_outcome tr sl k config w = Some (Inl x))
          \<and> transport_outcome tr sl (nat maxCount - 1) config w = Some (Inl e)
          \<longrightarrow> fst (retry_makeRequest tr sl maxCount config w) = Rejected (TransportError e)
            \<and> snd (snd (snd (retry_makeRequest tr sl maxCount config w)))
                = failed_prefix tr sl (nat maxCount - 1) config w
                  @ attempt_events tr sl (nat maxCount - 1) config w
            \<and> length (dispatches (snd (snd (snd (retry_makeRequest tr sl maxCount config w)))))
                = nat maxCount
            \<and> waits (snd (snd (snd (retry_makeRequest tr sl maxCount config w))))
                = map (\<lambda>k. 1000 * int k) [1..<nat maxCount])"
proof -
  obtain m where mc: "maxCount = int (Suc m)"
    using assms by (metis Suc_pred' int_nat_eq zero_less_nat_eq less_le_trans zero_less_one order_trans zero_le_one)
  have m: "int m < maxCount" "maxCount \<le> int m + 1"
    by (simp_all add: mc)
  obtain ck wk where st: "attempt_state tr sl m config w = (ck, wk)"
    by (cases "attempt_state tr sl m config w")
  {
    fix out
    assume fails: "\<forall>k < m. \<exists>x. transport_outcome tr sl k config w = Some (Inl x)"
      and last: "transport_outcome tr sl m config w = Some out"
    have "\<exists>out0. transport_outcome tr sl 0 config w = Some out0"
      using fails last by (cases m) auto
    then have mk: "retry_makeRequest tr sl maxCount config w = retry_loop tr sl maxCount 0 config w []"
      using retry_makeRequest_injected by blast
    have "retry_makeRequest tr sl maxCount config w =
          retry_loop tr sl maxCount (int m) ck wk (failed_prefix tr sl m config w)"
      using retry_loop_prefix [OF fails m(1)] st mk by simp
  } note reduce = this
  have A: "fst (retry_makeRequest tr sl maxCount config w) = Resolved (Some r)"
    if "\<forall>k < m. \<exists>x. transport_outcome tr sl k config w = Some (Inl x)"
      and "transport_outcome tr sl m config w = Some (Inr r)"
    using reduce [OF that] retry_loop_last_ok [OF st that(2) m(1)] by simp
  have B: "fst (retry_makeRequest tr sl maxCount config w) = Rejected (TransportError e)
       \<and> snd (snd (snd (retry_makeRequest tr sl maxCount config w)))
                = failed_prefix tr sl m config w @ attempt_events tr sl m config w
       \<and> length (dispatches (snd (snd (snd (retry_makeRequest tr sl maxCount config w))))) = Suc m
       \<and> waits (snd (snd (snd (retry_makeRequest tr sl maxCount config w))))
                = map (\<lambda>k. 1000 * int k) [1..<Suc m]"
    if fails: "\<forall>k < m. \<exists>x. transport_outcome tr sl k config w = Some (Inl x)"
      and last: "transport_outcome tr sl m config w = Some (Inl e)"
  proof -
    have tr: "snd (snd (snd (retry_makeRequest tr sl maxCount config w)))
                = failed_prefix tr sl m config w @ attempt_events tr sl m config w"
      and res: "fst (retry_makeRequest tr sl maxCount config w) = Rejected (TransportError e)"
      using reduce [OF that] retry_loop_last_fail [OF st last m(1,2)] by simp_all
    have "\<forall>j<m. \<exists>out. transport_outcome tr sl j config w = Some out" using fails by blast
    from waits_failed_prefix [OF this]
    have w: "waits (failed_prefix tr sl m config w) = map (\<lambda>k. 1000 * (int k + 1)) [0..<m]"
      and d: "length (dispatches (failed_prefix tr sl m config w)) = m" by simp_all
    obtain a c where ev: "attempt_events tr sl m config w = [Dispatch a c]"
      using attempt_events_single [OF last] by blast
    have "map (\<lambda>k. 1000 * (int k + 1)) [0..<m] = map (\<lambda>k. 1000 * int k) [1..<Suc m]"
      by (induction m) (simp_all add: algebra_simps)
    then show ?thesis using tr res w d ev by simp
  qed
  have n: "nat maxCount = Suc m" "nat maxCount - 1 = m" by (simp_all add: mc)
  have "((\<forall>k < m. \<exists>x. transport_outcome tr sl k config w = Some (Inl x))
          \<and> transport_outcome tr sl m config w = Some (Inr r)
          \<longrightarrow> fst (retry_makeRequest tr sl maxCount config w) = Resolved (Some r))
       \<and> ((\<forall>k < m. \<exists>x. transport_outcome tr sl k config w = Some (Inl x))
          \<and> transport_outcome tr sl m config w = Some (Inl e)
          \<longrightarrow> fst (retry_makeRequest tr sl maxCount config w) = Rejected (TransportError e)
            \<and> snd (snd (snd (retry_makeRequest tr sl maxCount config w)))
                = failed_prefix tr sl m config w @ attempt_events tr sl m config w
            \<and> length (dispatches (snd (snd (snd (retry_makeRequest tr sl maxCount config w)))))
                = Suc m
            \<and> waits (snd (snd (snd (retry_makeRequest tr sl maxCount config w))))
                = map (\<lambda>k. 1000 * int k) [1..<Suc m])"
    using A B by blast
  then show ?thesis by (simp only: n(1) diff_Suc_1)
qed

theorem retry_resolves_or_rejects_witness:
  "fst (retry_makeRequest (flaky 2) idle 3 example_config example_world) = Resolved (Some ''ok'')
   \<and> fst (retry_makeRequest always_down idle 3 example_config example_world)
        = Rejected (TransportError ''down'')
   \<and> length (dispatches (snd (snd (snd (retry_makeRequest always_down idle 3 example_config example_world))))) = 3
   \<and> waits (snd (snd (snd (retry_makeRequest always_down idle 3 example_config example_world))))
        = [1000, 2000]"
proof -
  have s: "attempt_state (flaky 2) idle (Suc 0) example_config example_world
         = (applyGlobalConfig example_global example_config, example_world\<lparr>served := 1\<rparr>)"
    by (simp add: proxied_request_def Let_def example_world_def flaky_def idle_def)
  have s': "attempt_state always_down idle (Suc 0) example_config example_world
         = (applyGlobalConfig example_global example_config, example_world\<lparr>served := 1\<rparr>)"
    by (simp add: proxied_request_def Let_def example_world_def always_down_def idle_def)
  have f: "transport_outcome (flaky 2) idle 0 example_config example_world = Some (Inl ''down'')"
    "transport_outcome (flaky 2) idle (Suc 0) example_config example_world = Some (Inl ''down'')"
    "transport_outcome (flaky 2) idle 2 example_config example_world = Some (Inr ''ok'')"
    unfolding numeral_2_eq_2
    by (simp_all add: transport_outcome_def s proxied_request_def Let_def example_world_def flaky_def idle_def)
  have d: "transport_outcome always_down idle 0 example_config example_world = Some (Inl ''down'')"
    "transport_outcome always_down idle (Suc 0) example_config example_world = Some (Inl ''down'')"
    "transport_outcome always_down idle 2 example_config example_world = Some (Inl ''down'')"
    unfolding numeral_2_eq_2
    by (simp_all add: transport_outcome_def s' proxied_request_def Let_def example_world_def always_down_def idle_def)
  have e: "nat 3 - 1 = Suc (Suc 0)" by simp
  have e2: "nat 3 = 3" by simp
  have three: "(1::int) \<le> 3" by simp
  have w: "map (\<lambda>k. 1000 * int k) [1..<3] = [1000, 2000]"
    by (simp add: upt_rec)
  have hf: "\<forall>k<Suc (Suc 0). \<exists>x. transport_outcome (flaky 2) idle k example_config example_world = Some (Inl x)"
    using f by (simp add: All_less_Suc)
  have hd: "\<forall>k<Suc (Suc 0). \<exists>x. transport_outcome always_down idle k example_config example_world = Some (Inl x)"
    using d by (simp add: All_less_Suc)
  have last_ok: "transport_outcome (flaky 2) idle (Suc (Suc 0)) example_config example_world = Some (Inr ''ok'')"
    using f(3) by (simp add: numeral_2_eq_2)
  have last_down: "transport_outcome always_down idle (Suc (Suc 0)) example_config example_world = Some (Inl ''down'')"
    using d(3) by (simp add: numeral_2_eq_2)
  note ok = retry_resolves_or_rejects
    [OF three, of "flaky 2" idle example_config example_world "''ok''" "''down''",
     unfolded e, unfolded e2 w, THEN conjunct1, THEN mp, OF conjI, OF hf last_ok]
  note down = retry_resolves_or_rejects
    [OF three, of always_down idle example_config example_world "''ok''" "''down''",
     unfolded e, unfolded e2 w, THEN conjunct2, THEN mp, OF conjI, OF hd last_down]
  show ?thesis
    using ok down by (elim conjE) (intro conjI, assumption+)
qed

lemma retry_loop_trace_prefix:
  "\<exists>rest. snd (snd (snd (retry_loop tr sl maxCount count config w t))) = t @ rest"
proof (induction tr sl maxCount count config w t rule: retry_loop.induct)
  case (1 tr sl maxCount count config w t)
  show ?case
  proof (cases "count < maxCount")
    case False
    then show ?thesis by (subst retry_loop.simps) simp
  next
    case True
    obtain out c' w' evs where pr: "proxied_request tr config w = (out, c', w', evs)"
      by (cases "proxied_request tr config w")
    show ?thesis
    proof (cases out)
      case (Inr r)
      then show ?thesis using True pr by (subst retry_loop.simps) simp
    next
      case (Inl e)
      show ?thesis
      proof (cases "maxCount \<le> count + 1")
        case True
        then show ?thesis using \<open>count < maxCount\<close> pr Inl by (subst retry_loop.simps) simp
      next
        case False
        have "\<exists>rest. snd (snd (snd (retry_loop tr sl maxCount (count + 1) c' (sl (1000 * (count + 1)) w')
                  (t @ evs @ [Wait (1000 * (count + 1))])))) = (t @ evs @ [Wait (1000 * (count + 1))]) @ rest"
          using "1.IH" [OF \<open>count < maxCount\<close> pr [symmetric] _ _ _ False] Inl by blast
        then obtain rest where
          "snd (snd (snd (retry_loop tr sl maxCount (count + 1) c' (sl (1000 * (count + 1)) w')
                  (t @ evs @ [Wait (1000 * (count + 1))])))) = (t @ evs @ [Wait (1000 * (count + 1))]) @ rest"
          by blast
        then show ?thesis using \<open>count < maxCount\<close> pr Inl False
          by (subst retry_loop.simps) simp
      qed
    qed
  qed
qed

lemma retry_two_attempts:
  assumes "requestorInstance w = Some a"
    and "tr a (applyGlobalConfig (globalConfig w) c) w = (Inl x, w1)"
    and "2 \<le> maxCount"
    and "requestorInstance (sl 1000 w1) = Some a2"
  shows "take 2 (dispatches (snd (snd (snd (retry_makeRequest tr sl maxCount c w)))))
         = [(a, applyGlobalConfig (globalConfig w) c),
            (a2, applyGlobalConfig (globalConfig (sl 1000 w1)) (applyGlobalConfig (globalConfig w) c))]"
proof -
  let ?c1 = "applyGlobalConfig (globalConfig w) c"
  let ?w2 = "sl 1000 w1"
  let ?c2 = "applyGlobalConfig (globalConfig ?w2) ?c1"
  let ?t = "[Dispatch a ?c1, Wait 1000]"
  have p1: "proxied_request tr c w = (Inl (TransportError x), ?c1, w1, [Dispatch a ?c1])"
    using assms(1,2) by (simp add: proxied_request_def Let_def)
  have s1: "retry_makeRequest tr sl maxCount c w = retry_loop tr sl maxCount 1 ?c1 ?w2 ?t"
    using assms(1,3) p1
    by (simp add: retry_makeRequest_def useRequestor_def) (subst retry_loop.simps, simp)
  obtain out w2' where t2: "tr a2 ?c2 ?w2 = (out, w2')" by (cases "tr a2 ?c2 ?w2")
  have "\<exists>rest. snd (snd (snd (retry_loop tr sl maxCount 1 ?c1 ?w2 ?t))) = ?t @ [Dispatch a2 ?c2] @ rest"
  proof (cases out)
    case (Inr r)
    then have "proxied_request tr ?c1 ?w2 = (Inr r, ?c2, w2', [Dispatch a2 ?c2])"
      using assms(4) t2 by (simp add: proxied_request_def Let_def)
    then show ?thesis using assms(3) by (subst retry_loop.simps) simp
  next
    case (Inl y)
    then have p2: "proxied_request tr ?c1 ?w2 = (Inl (TransportError y), ?c2, w2', [Dispatch a2 ?c2])"
      using assms(4) t2 by (simp add: proxied_request_def Let_def)
    show ?thesis
    proof (cases "maxCount \<le> 2")
      case True
      then show ?thesis using assms(3) p2 by (subst retry_loop.simps) simp
    next
      case False
      obtain rest where
        "snd (snd (snd (retry_loop tr sl maxCount 2 ?c2 (sl 2000 w2') (?t @ [Dispatch a2 ?c2] @ [Wait 2000]))))
           = (?t @ [Dispatch a2 ?c2] @ [Wait 2000]) @ rest"
        using retry_loop_trace_prefix by blast
      then show ?thesis using assms(3) p2 False by (subst retry_loop.simps) simp
    qed
  qed
  then obtain rest where
    "snd (snd (snd (retry_makeRequest tr sl maxCount c w))) = ?t @ [Dispatch a2 ?c2] @ rest"
    using s1 by auto
  then show ?thesis by simp
qed

lemma joinURL_length:
  "length (joinURL b u) + 1 \<ge> length (if endsWith b ''/'' then b else b @ ''/'') + length u"
  by (cases u) (simp_all add: joinURL_def Let_def slice1_def startsWith_def)

lemma joinURL_again_differs:
  assumes "b \<noteq> []" "b \<noteq> ''/''"
  shows "joinURL b (joinURL b u) \<noteq> joinURL b u"
proof -
  let ?b' = "if endsWith b ''/'' then b else b @ ''/''"
  have "length ?b' \<ge> 2"
  proof (cases "endsWith b ''/''")
    case True
    then obtain p where "b = p @ ''/''" by (auto simp: endsWith_suffix suffix_def)
    with assms(2) have "p \<noteq> []" by auto
    then show ?thesis using True \<open>b = p @ ''/''\<close> by (cases p) simp_all
  next
    case False
    then show ?thesis using assms(1) by (cases b) simp_all
  qed
  moreover have "length (joinURL b u) \<ge> length ?b'"
    by (simp add: joinURL_def Let_def)
  moreover have "length (joinURL b (joinURL b u)) + 1 \<ge> length ?b' + length (joinURL b u)"
    by (rule joinURL_length)
  ultimately have "length (joinURL b (joinURL b u)) > length (joinURL b u)" by linarith
  then show ?thesis by auto
qed

lemma joinURL_nonempty: "joinURL b u \<noteq> []"
  by (auto simp: joinURL_def Let_def endsWith_def)

lemma applyGlobalConfig_baseURL_twice:
  assumes "baseURL g = Some b" "b \<noteq> []" "url c = Some u" "u \<noteq> []"
  shows "url (applyGlobalConfig g c) = Some (joinURL b u)"
    and "url (applyGlobalConfig g (applyGlobalConfig g c)) = Some (joinURL b (joinURL b u))"
  using assms by (simp_all add: applyGlobalConfig_url joinURL_nonempty)

text \<open>
  C8, as the code has it. For \<open>maxCount \<le> 0\<close> the call dispatches nothing. It resolves
  with \<open>undefined\<close> when an adapter has been injected; when none has, \<open>useRequestor\<close>
  throws before the loop is reached and the call rejects with the not-injected error.
\<close>

theorem retry_nonpositive:
  assumes "maxCount \<le> 0"
  shows "retry_makeRequest tr sl maxCount config w =
           (if requestorInstance w = None then Rejected NotInjected else Resolved None,
            config, w, [])"
  using assms
  by (simp add: retry_makeRequest_def useRequestor_def) (subst retry_loop.simps, simp)

theorem retry_nonpositive_witness:
  "retry_makeRequest always_down idle 0 example_config example_world
     = (Resolved None, example_config, example_world, [])
   \<and> retry_makeRequest always_down idle (- 1) example_config empty_world
     = (Rejected NotInjected, example_config, empty_world, [])"
  using retry_nonpositive [of 0 always_down idle example_config example_world]
    retry_nonpositive [of "- 1" always_down idle example_config empty_world]
  by (simp add: example_world_def empty_world_def)

theorem retry_nonpositive_not_injected:
  "requestorInstance empty_world = None
   \<and> fst (retry_makeRequest always_down idle 0 example_config empty_world) = Rejected NotInjected
   \<and> fst (retry_makeRequest always_down idle 0 example_config empty_world) \<noteq> Resolved None"
  by (simp add: retry_makeRequest_def useRequestor_def empty_world_def)

text \<open>
  C9, as the code has it. \<open>applyGlobalConfig\<close> writes the merged url into the object it
  is given. When \<open>baseURL\<close> is a text \<open>b\<close> other than the empty text and other than a
  single slash, and the url is a non-empty text \<open>u\<close>, a second application joins \<open>b\<close> to
  the already joined url, and the result differs from the first. The retry loop hands the
  same object to every attempt: when the first attempt fails and the global configuration
  is the same at the second, the second attempt dispatches the twice-joined url. (For
  \<open>baseURL = "/"\<close> the second application strips the slash it then adds back, and the url
  stays as it was.)
\<close>

theorem retried_url_prefixed_twice:
  assumes "baseURL g = Some b" "b \<noteq> []" "b \<noteq> ''/''" "url c = Some u" "u \<noteq> []"
  shows "url (applyGlobalConfig g (applyGlobalConfig g c)) = Some (joinURL b (joinURL b u))
       \<and> url (applyGlobalConfig g (applyGlobalConfig g c)) \<noteq> url (applyGlobalConfig g c)
       \<and> (globalConfig w = g \<and> requestorInstance w = Some a
            \<and> tr a (applyGlobalConfig g c) w = (Inl x, w1)
            \<and> globalConfig (sl 1000 w1) = g \<and> requestorInstance (sl 1000 w1) = Some a2
            \<and> 2 \<le> maxCount
          \<longrightarrow> map (url \<circ> snd)
                (take 2 (dispatches (snd (snd (snd (retry_makeRequest tr sl maxCount c w))))))
              = [Some (joinURL b u), Some (joinURL b (joinURL b u))])"
proof -
  note two = applyGlobalConfig_baseURL_twice [OF assms(1,2,4,5)]
  have "map (url \<circ> snd)
                (take 2 (dispatches (snd (snd (snd (retry_makeRequest tr sl maxCount c w))))))
              = [Some (joinURL b u), Some (joinURL b (joinURL b u))]"
    if "globalConfig w = g" "requestorInstance w = Some a"
       "tr a (applyGlobalConfig g c) w = (Inl x, w1)"
       "globalConfig (sl 1000 w1) = g" "requestorInstance (sl 1000 w1) = Some a2" "2 \<le> maxCount"
  proof -
    have "tr a (applyGlobalConfig (globalConfig w) c) w = (Inl x, w1)" using that by simp
    from retry_two_attempts [where tr = tr and sl = sl and w = w and c = c, OF that(2) this that(6,5)]
    show ?thesis using that(1,4) two by simp
  qed
  then show ?thesis using two joinURL_again_differs [OF assms(2,3)] by simp
qed

theorem retried_url_prefixed_twice_witness:
  "url (applyGlobalConfig example_global (applyGlobalConfig example_global example_config))
     = Some ''http://a.com/http://a.com/x''
   \<and> url (applyGlobalConfig example_global example_config) = Some ''http://a.com/x''
   \<and> map (url \<circ> snd)
        (take 2 (dispatches (snd (snd (snd
           (retry_makeRequest always_down idle 2 example_config example_world))))))
     = [Some ''http://a.com/x'', Some ''http://a.com/http://a.com/x'']"
proof -
  have h: "baseURL example_global = Some ''http://a.com''" "''http://a.com'' \<noteq> []"
    "''http://a.com'' \<noteq> ''/''" "url example_config = Some ''/x''" "''/x'' \<noteq> []"
    by (simp_all add: example_global_def example_config_def)
  have j: "joinURL ''http://a.com'' ''/x'' = ''http://a.com/x''"
    "joinURL ''http://a.com'' ''http://a.com/x'' = ''http://a.com/http://a.com/x''"
    by (simp_all add: joinURL_def endsWith_def startsWith_def slice1_def)
  have r: "globalConfig example_world = example_global \<and> requestorInstance example_world = Some 7
            \<and> always_down 7 (applyGlobalConfig example_global example_config) example_world
                = (Inl ''down'', example_world\<lparr>served := 1\<rparr>)
            \<and> globalConfig (idle 1000 (example_world\<lparr>served := 1\<rparr>)) = example_global
            \<and> requestorInstance (idle 1000 (example_world\<lparr>served := 1\<rparr>)) = Some 7
            \<and> (2::int) \<le> 2"
    by (simp add: example_world_def always_down_def idle_def)
  note t = retried_url_prefixed_twice [OF h, of example_world 7 always_down "''down''"
      "example_world\<lparr>served := 1\<rparr>" idle 7 2, unfolded j]
  show ?thesis
    using t [THEN conjunct1] t [THEN conjunct2, THEN conjunct2, THEN mp, OF r]
      applyGlobalConfig_baseURL_twice(1) [OF h(1,2,4,5), unfolded j]
    by (intro conjI)
qed

theorem root_baseURL_retry_same_url:
  "baseURL root_global = Some ''/''
   \<and> url example_config = Some ''/x''
   \<and> url (applyGlobalConfig root_global (applyGlobalConfig root_global example_config))
       = url (applyGlobalConfig root_global example_config)
   \<and> map (url \<circ> snd)
        (take 2 (dispatches (snd (snd (snd
           (retry_makeRequest always_down idle 2 example_config root_world))))))
     = [Some ''/x'', Some ''/x'']"
proof -
  have j: "joinURL ''/'' ''/x'' = ''/x''"
    by (simp add: joinURL_def endsWith_def startsWith_def slice1_def)
  have u: "url (applyGlobalConfig root_global example_config) = Some ''/x''"
    "url (applyGlobalConfig root_global (applyGlobalConfig root_global example_config)) = Some ''/x''"
    by (simp_all add: applyGlobalConfig_url root_global_def example_config_def j)
  have a: "requestorInstance root_world = Some 7" "globalConfig root_world = root_global"
    by (simp_all add: root_world_def)
  have f: "always_down 7 (applyGlobalConfig (globalConfig root_world) example_config) root_world
             = (Inl ''down'', root_world\<lparr>served := 1\<rparr>)"
    by (simp add: always_down_def root_world_def)
  have a2: "requestorInstance (idle 1000 (root_world\<lparr>served := 1\<rparr>)) = Some 7"
    by (simp add: idle_def root_world_def)
  have g2: "globalConfig (idle 1000 (root_world\<lparr>served := 1\<rparr>)) = root_global"
    by (simp add: idle_def root_world_def)
  have two: "(2::int) \<le> 2" by simp
  note t = retry_two_attempts [where tr = always_down and sl = idle and w = root_world
        and c = example_config, OF a(1) f two a2, unfolded a(2) g2]
  have m: "map (url \<circ> snd)
        (take 2 (dispatches (snd (snd (snd
           (retry_makeRequest always_down idle 2 example_config root_world))))))
     = [Some ''/x'', Some ''/x'']"
    by (simp only: t list.map comp_apply snd_conv u)
  have b: "baseURL root_global = Some ''/''" "url example_config = Some ''/x''"
    by (simp_all add: root_global_def example_config_def)
  show ?thesis
    using b m u by (simp only: simp_thms)
qed

text \<open>
  C3 at a concrete run. The global configuration has timeout 1000 and the header
  \<open>Authorization: old\<close>. The first attempt of a retry call fails; while the call waits,
  \<open>setGlobalConfig\<close> sets timeout 5000 and \<open>Authorization: new\<close>. The second attempt
  reads the new configuration, but merges it into the config object that the first
  attempt already filled: it dispatches timeout 1000 and \<open>Authorization: old\<close>, where a
  new call made at that moment dispatches 5000 and \<open>new\<close>.
\<close>

theorem retry_masks_new_settings:
  "map (timeout \<circ> snd)
     (dispatches (snd (snd (snd (retry_makeRequest (flaky 1) reconfigure 2 example_config example_world)))))
     = [Some 1000, Some 1000]
   \<and> map (authorization \<circ> snd)
     (dispatches (snd (snd (snd (retry_makeRequest (flaky 1) reconfigure 2 example_config example_world)))))
     = [Some ''old'', Some ''old'']
   \<and> fst (retry_makeRequest (flaky 1) reconfigure 2 example_config example_world) = Resolved (Some ''ok'')
   \<and> gtimeout (globalConfig (reconfigure 1000 (example_world\<lparr>served := 1\<rparr>))) = Some 5000
   \<and> header_of (gheaders (globalConfig (reconfigure 1000 (example_world\<lparr>served := 1\<rparr>))))
        ''Authorization'' = Some ''new''
   \<and> timeout (applyGlobalConfig (globalConfig (reconfigure 1000 (example_world\<lparr>served := 1\<rparr>)))
        example_config) = Some 5000
   \<and> authorization (applyGlobalConfig (globalConfig (reconfigure 1000 (example_world\<lparr>served := 1\<rparr>)))
        example_config) = Some ''new''"
  by (simp add: retry_makeRequest_def useRequestor_def retry_loop.simps proxied_request_def Let_def
        flaky_def reconfigure_def example_world_def example_global_def example_config_def
        new_settings_def setGlobalConfig_def applyGlobalConfig_def joinURL_def endsWith_def
        startsWith_def slice1_def spread_def header_of_def authorization_def)

section \<open>Properties of the cache and idempotent decorators\<close>


lemma cache_hit:
  assumes "cache_lookup js opts st config w = (Inr (Some d) :: 'x error + 'r option option)"
  shows "cache_makeRequest tr js opts st config w =
           (Resolved d :: ('x error, 'r option) settled, config, w, [])"
  using assms by (simp add: cache_makeRequest_def)




lemma cache_lookup_absent:
  "(store_has st w (n_key opts config) :: 'x error + bool) = Inr False
   \<Longrightarrow> (cache_lookup js opts st config w :: 'x error + 'r option option) = Inr None"
  by (simp add: cache_lookup_def Let_def)


















lemma idempotent_key_eq:
  "idempotent_key c =
     part (http_method c) @ ''-'' @ part (url c)
     @ (if truthy (params c) then ''-'' @ part (json_stringify (params c)) else [])
     @ (if truthy (data c) then ''-'' @ part (json_stringify (data c)) else [])"
  by (simp add: idempotent_key_def Let_def part_def split: option.splits)

lemma truthy_stringify: "truthy v \<Longrightarrow> \<exists>t. json_stringify v = Some t"
  by (cases v) simp_all

lemma idempotent_instance:
  "fst (createIdempotentRequest None w0) =
     (\<lparr>n_key = idempotent_key, n_duration = 3600000, n_isValid = None, n_persist = False\<rparr>,
      MemoryStore)"
  by (simp add: createIdempotentRequest_def createCacheRequestor_def normalize_options_def
        useCacheStore_def Let_def)

lemma idempotent_dispatch:
  fixes tr :: "'a \<Rightarrow> config \<Rightarrow> ('a, 'r) cache_world \<Rightarrow> ('x + 'r) \<times> ('a, 'r) cache_world"
  assumes "memoryStore w (idempotent_key c) = None"
    and "requestorInstance w = Some a"
  shows "snd (snd (snd (cache_makeRequest tr js (fst (fst (createIdempotentRequest None w0)))
                          MemoryStore c w)))
           = [Dispatch a (applyGlobalConfig (globalConfig w) c)]"
proof -
  let ?opts = "fst (fst (createIdempotentRequest None w0)) :: 'r normalized_options"
  have o: "n_key ?opts = idempotent_key" by (simp add: idempotent_instance)
  have "(store_has MemoryStore w (n_key ?opts c) :: 'x error + bool) = Inr False"
    using assms by (simp add: o store_has_def)
  then have l: "(cache_lookup js ?opts MemoryStore c w :: 'x error + 'r option option) = Inr None"
    by (rule cache_lookup_absent)
  show ?thesis
  proof (cases "tr a (applyGlobalConfig (globalConfig w) c) w")
    case (Pair out w')
    then show ?thesis
      using assms l
      by (cases out)
        (simp_all add: cache_makeRequest_def useRequestor_def proxied_request_def Let_def
           store_set_def)
  qed
qed

text \<open>
  C7, as the code has it. Two calls whose method, url, params and body are the same, the
  properties of params and body written in the same order, have the same default key, and
  the second resolves from the entry stored under it while the entry is less than an hour
  old. Two calls that differ in exactly one of the four fields have different keys when
  the two methods, or the two urls, are different texts, or when the params, or the
  bodies, are truthy in one call only or truthy in both with different JSON texts. A call
  whose key differs from the key of the one entry in the store dispatches to the
  transport. Nothing more is promised: calls differing in several fields can share a key,
  and calls whose params hold the same properties written in another order can have
  different keys.
\<close>

theorem idempotent_key_cases:
  fixes tr :: "'a \<Rightarrow> config \<Rightarrow> ('a, 'r) cache_world \<Rightarrow> ('x + 'r) \<times> ('a, 'r) cache_world"
  shows
  "(http_method c1 = http_method c2 \<and> url c1 = url c2 \<and> params c1 = params c2 \<and> data c1 = data c2
      \<longrightarrow> idempotent_key c1 = idempotent_key c2)
   \<and> (http_method c1 = http_method c2 \<and> url c1 = url c2 \<and> params c1 = params c2 \<and> data c1 = data c2
        \<and> memoryStore w (idempotent_key c1) = Some e
        \<and> dateNow w - entry_timestamp e < 3600000
      \<longrightarrow> snd (fst (createIdempotentRequest None w0)) = MemoryStore
        \<and> cache_makeRequest tr js (fst (fst (createIdempotentRequest None w0))) MemoryStore c2 w
            = (Resolved (Some (entry_data e)), c2, w, []))
   \<and> (http_method c1 = Some m1 \<and> http_method c2 = Some m2 \<and> m1 \<noteq> m2
        \<and> url c1 = url c2 \<and> params c1 = params c2 \<and> data c1 = data c2
      \<longrightarrow> idempotent_key c1 \<noteq> idempotent_key c2)
   \<and> (url c1 = Some u1 \<and> url c2 = Some u2 \<and> u1 \<noteq> u2
        \<and> http_method c1 = http_method c2 \<and> params c1 = params c2 \<and> data c1 = data c2
      \<longrightarrow> idempotent_key c1 \<noteq> idempotent_key c2)
   \<and> ((truthy (params c1) \<noteq> truthy (params c2)
          \<or> truthy (params c1) \<and> truthy (params c2)
             \<and> json_stringify (params c1) \<noteq> json_stringify (params c2))
        \<and> http_method c1 = http_method c2 \<and> url c1 = url c2 \<and> data c1 = data c2
      \<longrightarrow> idempotent_key c1 \<noteq> idempotent_key c2)
   \<and> ((truthy (data c1) \<noteq> truthy (data c2)
          \<or> truthy (data c1) \<and> truthy (data c2)
             \<and> json_stringify (data c1) \<noteq> json_stringify (data c2))
        \<and> http_method c1 = http_method c2 \<and> url c1 = url c2 \<and> params c1 = params c2
      \<longrightarrow> idempotent_key c1 \<noteq> idempotent_key c2)
   \<and> (memoryStore w = Map.empty \<and> requestorInstance w = Some a
      \<longrightarrow> snd (snd (snd (cache_makeRequest tr js (fst (fst (createIdempotentRequest None w0)))
                              MemoryStore c1 w)))
            = [Dispatch a (applyGlobalConfig (globalConfig w) c1)])
   \<and> (idempotent_key c1 \<noteq> idempotent_key c2
        \<and> memoryStore w = [idempotent_key c1 \<mapsto> e]
        \<and> requestorInstance w = Some a
      \<longrightarrow> snd (snd (snd (cache_makeRequest tr js (fst (fst (createIdempotentRequest None w0)))
                              MemoryStore c2 w)))
            = [Dispatch a (applyGlobalConfig (globalConfig w) c2)])"
proof (intro conjI impI)
  assume "http_method c1 = http_method c2 \<and> url c1 = url c2 \<and> params c1 = params c2 \<and> data c1 = data c2"
  then show "idempotent_key c1 = idempotent_key c2" by (simp add: idempotent_key_eq)
next
  assume h: "http_method c1 = http_method c2 \<and> url c1 = url c2 \<and> params c1 = params c2 \<and> data c1 = data c2
        \<and> memoryStore w (idempotent_key c1) = Some e
        \<and> dateNow w - entry_timestamp e < 3600000"
  then have k: "idempotent_key c2 = idempotent_key c1" by (simp add: idempotent_key_eq)
  let ?opts = "fst (fst (createIdempotentRequest None w0)) :: 'r normalized_options"
  have o: "n_key ?opts = idempotent_key" "n_duration ?opts = 3600000" "n_isValid ?opts = None"
    by (simp_all add: idempotent_instance)
  show "snd (fst (createIdempotentRequest None w0)) = MemoryStore"
    by (simp add: idempotent_instance)
  have "(cache_lookup js ?opts MemoryStore c2 w :: 'x error + 'r option option)
          = Inr (Some (Some (entry_data e)))"
    using h by (simp add: cache_lookup_def Let_def o k store_has_def store_get_def cached_of_def)
  then show "cache_makeRequest tr js ?opts MemoryStore c2 w = (Resolved (Some (entry_data e)), c2, w, [])"
    by (rule cache_hit)
next
  assume "http_method c1 = Some m1 \<and> http_method c2 = Some m2 \<and> m1 \<noteq> m2
        \<and> url c1 = url c2 \<and> params c1 = params c2 \<and> data c1 = data c2"
  then show "idempotent_key c1 \<noteq> idempotent_key c2"
    by (simp add: idempotent_key_eq part_def)
next
  assume "url c1 = Some u1 \<and> url c2 = Some u2 \<and> u1 \<noteq> u2
        \<and> http_method c1 = http_method c2 \<and> params c1 = params c2 \<and> data c1 = data c2"
  then show "idempotent_key c1 \<noteq> idempotent_key c2"
    by (simp add: idempotent_key_eq part_def)
next
  assume h: "(truthy (params c1) \<noteq> truthy (params c2)
          \<or> truthy (params c1) \<and> truthy (params c2)
             \<and> json_stringify (params c1) \<noteq> json_stringify (params c2))
        \<and> http_method c1 = http_method c2 \<and> url c1 = url c2 \<and> data c1 = data c2"
  show "idempotent_key c1 \<noteq> idempotent_key c2"
  proof (cases "truthy (params c1) \<and> truthy (params c2)")
    case True
    then obtain t1 t2 where "json_stringify (params c1) = Some t1" "json_stringify (params c2) = Some t2"
      using truthy_stringify by blast
    then show ?thesis using h True by (simp add: idempotent_key_eq part_def)
  next
    case False
    then show ?thesis using h by (auto simp: idempotent_key_eq part_def)
  qed
next
  assume h: "(truthy (data c1) \<noteq> truthy (data c2)
          \<or> truthy (data c1) \<and> truthy (data c2)
             \<and> json_stringify (data c1) \<noteq> json_stringify (data c2))
        \<and> http_method c1 = http_method c2 \<and> url c1 = url c2 \<and> params c1 = params c2"
  show "idempotent_key c1 \<noteq> idempotent_key c2"
  proof (cases "truthy (data c1) \<and> truthy (data c2)")
    case True
    then obtain t1 t2 where "json_stringify (data c1) = Some t1" "json_stringify (data c2) = Some t2"
      using truthy_stringify by blast
    then show ?thesis using h True by (simp add: idempotent_key_eq part_def)
  next
    case False
    then show ?thesis using h by (auto simp: idempotent_key_eq part_def)
  qed
next
  assume "memoryStore w = Map.empty \<and> requestorInstance w = Some a"
  then show "snd (snd (snd (cache_makeRequest tr js (fst (fst (createIdempotentRequest None w0)))
                              MemoryStore c1 w)))
            = [Dispatch a (applyGlobalConfig (globalConfig w) c1)]"
    by (simp add: idempotent_dispatch)
next
  assume h: "idempotent_key c1 \<noteq> idempotent_key c2
        \<and> memoryStore w = [idempotent_key c1 \<mapsto> e]
        \<and> requestorInstance w = Some a"
  then have "memoryStore w (idempotent_key c2) = None" by auto
  moreover from h have "requestorInstance w = Some a" by blast
  ultimately show "snd (snd (snd (cache_makeRequest tr js (fst (fst (createIdempotentRequest None w0)))
                              MemoryStore c2 w)))
            = [Dispatch a (applyGlobalConfig (globalConfig w) c2)]"
    by (rule idempotent_dispatch)
qed

text \<open>
  A call with params \<open>{a: 1}\<close> and no body and a call with body \<open>{a: 1}\<close> and no
  params share a key; two calls whose params are the same mapping, written as
  \<open>{a: 'x', b: 'y'}\<close> and as \<open>{b: 'y', a: 'x'}\<close>, have different keys.
\<close>

theorem default_key_swap_and_order:
  "http_method post_params = http_method post_data
   \<and> url post_params = url post_data
   \<and> params post_params \<noteq> params post_data
   \<and> data post_params \<noteq> data post_data
   \<and> idempotent_key post_params = idempotent_key post_data
   \<and> http_method post_ab = http_method post_ba
   \<and> url post_ab = url post_ba
   \<and> properties (params post_ab) = properties (params post_ba)
   \<and> data post_ab = data post_ba
   \<and> idempotent_key post_ab \<noteq> idempotent_key post_ba"
proof -
  have "idempotent_key post_ab \<noteq> idempotent_key post_ba"
    by code_simp
  moreover have "properties (params post_ab) = properties (params post_ba)"
    by (simp add: properties_def post_ab_def post_ba_def own_properties_def fun_eq_iff)
  ultimately show ?thesis
    by (simp add: post_params_def post_data_def post_ab_def post_ba_def post_config_def
          example_config_def idempotent_key_def Let_def)
qed

theorem idempotent_key_cases_witness:
  "idempotent_key post_data = idempotent_key post_data_again
   \<and> cache_makeRequest responding plain_json idempotent_options MemoryStore post_data_again
        (cache_world_at 1000 post_entry)
       = (Resolved (Some ''payload''), post_data_again, cache_world_at 1000 post_entry, [])
   \<and> idempotent_key example_config \<noteq> idempotent_key post_config
   \<and> idempotent_key example_config \<noteq> idempotent_key absolute_config
   \<and> idempotent_key post_params \<noteq> idempotent_key post_config
   \<and> idempotent_key post_data \<noteq> idempotent_key post_config
   \<and> snd (snd (snd (cache_makeRequest responding plain_json idempotent_options MemoryStore
                        post_data (cache_world_at 100 no_entry))))
       = [Dispatch 7 (applyGlobalConfig example_global post_data)]
   \<and> snd (snd (snd (cache_makeRequest responding plain_json idempotent_options MemoryStore
                        post_config (cache_world_at 1000 post_entry))))
       = [Dispatch 7 (applyGlobalConfig example_global post_config)]"
proof -
  note defs = post_data_def post_data_again_def post_params_def post_config_def example_config_def
    absolute_config_def
  have same: "http_method post_data = http_method post_data_again \<and> url post_data = url post_data_again
      \<and> params post_data = params post_data_again \<and> data post_data = data post_data_again"
    by (simp add: defs)
  have stored: "http_method post_data = http_method post_data_again \<and> url post_data = url post_data_again
      \<and> params post_data = params post_data_again \<and> data post_data = data post_data_again
      \<and> memoryStore (cache_world_at 1000 post_entry) (idempotent_key post_data) = Some payload_entry
      \<and> dateNow (cache_world_at 1000 post_entry) - entry_timestamp payload_entry < 3600000"
    by (simp add: defs cache_world_at_def post_entry_def payload_entry_def)
  have m: "http_method example_config = Some ''get'' \<and> http_method post_config = Some ''post''
      \<and> ''get'' \<noteq> ''post''
      \<and> url example_config = url post_config \<and> params example_config = params post_config
      \<and> data example_config = data post_config"
    by (simp add: defs)
  have u: "url example_config = Some ''/x'' \<and> url absolute_config = Some ''http://a.com/x''
      \<and> ''/x'' \<noteq> ''http://a.com/x''
      \<and> http_method example_config = http_method absolute_config
      \<and> params example_config = params absolute_config
      \<and> data example_config = data absolute_config"
    by (simp add: defs)
  have p: "(truthy (params post_params) \<noteq> truthy (params post_config)
          \<or> truthy (params post_params) \<and> truthy (params post_config)
             \<and> json_stringify (params post_params) \<noteq> json_stringify (params post_config))
      \<and> http_method post_params = http_method post_config \<and> url post_params = url post_config
      \<and> data post_params = data post_config"
    by (simp add: defs)
  have d: "(truthy (data post_data) \<noteq> truthy (data post_config)
          \<or> truthy (data post_data) \<and> truthy (data post_config)
             \<and> json_stringify (data post_data) \<noteq> json_stringify (data post_config))
      \<and> http_method post_data = http_method post_config \<and> url post_data = url post_config
      \<and> params post_data = params post_config"
    by (simp add: defs)
  note t1 = idempotent_key_cases [where ?c1.0 = post_data and ?c2.0 = post_data_again
      and tr = responding and js = plain_json and w = "cache_world_at 1000 post_entry"
      and e = payload_entry and ?w0.0 = "cache_world_at 100 no_entry"]
  have r1: "idempotent_key post_data = idempotent_key post_data_again"
    by (rule t1 [THEN conjunct1, THEN mp, OF same])
  have r2: "cache_makeRequest responding plain_json idempotent_options MemoryStore post_data_again
        (cache_world_at 1000 post_entry)
       = (Resolved (Some ''payload''), post_data_again, cache_world_at 1000 post_entry, [])"
    using t1 [THEN conjunct2, THEN conjunct1, THEN mp, OF stored]
    by (simp add: idempotent_options_def payload_entry_def)
  have r3: "idempotent_key example_config \<noteq> idempotent_key post_config"
    by (rule idempotent_key_cases [where ?c1.0 = example_config and ?c2.0 = post_config
          and tr = responding,
          THEN conjunct2, THEN conjunct2, THEN conjunct1, THEN mp, OF m])
  have r4: "idempotent_key example_config \<noteq> idempotent_key absolute_config"
    by (rule idempotent_key_cases [where ?c1.0 = example_config and ?c2.0 = absolute_config
          and tr = responding,
          THEN conjunct2, THEN conjunct2, THEN conjunct2, THEN conjunct1, THEN mp, OF u])
  have r5: "idempotent_key post_params \<noteq> idempotent_key post_config"
    by (rule idempotent_key_cases [where ?c1.0 = post_params and ?c2.0 = post_config
          and tr = responding,
          THEN conjunct2, THEN conjunct2, THEN conjunct2, THEN conjunct2, THEN conjunct1,
          THEN mp, OF p])
  have r6: "idempotent_key post_data \<noteq> idempotent_key post_config"
    by (rule idempotent_key_cases [where ?c1.0 = post_data and ?c2.0 = post_config
          and tr = responding,
          THEN conjunct2, THEN conjunct2, THEN conjunct2, THEN conjunct2, THEN conjunct2,
          THEN conjunct1, THEN mp, OF d])
  have fresh: "memoryStore (cache_world_at 100 no_entry) = Map.empty
      \<and> requestorInstance (cache_world_at 100 no_entry) = Some 7"
    by (simp add: cache_world_at_def no_entry_def)
  have r7: "snd (snd (snd (cache_makeRequest responding plain_json idempotent_options MemoryStore
                        post_data (cache_world_at 100 no_entry))))
       = [Dispatch 7 (applyGlobalConfig example_global post_data)]"
    using idempotent_key_cases [where ?c1.0 = post_data
          and tr = responding and js = plain_json and w = "cache_world_at 100 no_entry"
          and a = 7 and ?w0.0 = "cache_world_at 100 no_entry",
          THEN conjunct2, THEN conjunct2, THEN conjunct2, THEN conjunct2, THEN conjunct2,
          THEN conjunct2, THEN conjunct1, THEN mp, OF fresh]
    by (simp add: idempotent_options_def cache_world_at_def)
  have own: "idempotent_key post_data \<noteq> idempotent_key post_config
      \<and> memoryStore (cache_world_at 1000 post_entry) = [idempotent_key post_data \<mapsto> payload_entry]
      \<and> requestorInstance (cache_world_at 1000 post_entry) = Some 7"
    using r6 by (simp add: cache_world_at_def post_entry_def)
  have r8: "snd (snd (snd (cache_makeRequest responding plain_json idempotent_options MemoryStore
                        post_config (cache_world_at 1000 post_entry))))
       = [Dispatch 7 (applyGlobalConfig example_global post_config)]"
    using idempotent_key_cases [where ?c1.0 = post_data and ?c2.0 = post_config
          and tr = responding and js = plain_json and w = "cache_world_at 1000 post_entry"
          and e = payload_entry and a = 7 and ?w0.0 = "cache_world_at 100 no_entry",
          THEN conjunct2, THEN conjunct2, THEN conjunct2, THEN conjunct2, THEN conjunct2,
          THEN conjunct2, THEN conjunct2, THEN mp, OF own]
    by (simp add: idempotent_options_def cache_world_at_def)
  show ?thesis using r1 r2 r3 r4 r5 r6 r7 r8 by (intro conjI)
qed



section \<open>Properties of the bounded-concurrency decorator\<close>

lemma processQueue_idle:
  "queue s = [] \<or> maxP \<le> runningCount s \<Longrightarrow> processQueue maxP s = (s, None)"
  by (auto simp: processQueue_def split: list.splits)

lemma processQueue_throw:
  assumes "queue s = (i, c) # rest" "runningCount s < maxP" "requestorInstance s = None"
  shows "processQueue maxP s =
           (s\<lparr>runningCount := runningCount s + 1, queue := rest, dequeued := dequeued s @ [i]\<rparr>,
            Some NotInjected)"
  using assms by (simp add: processQueue_def Let_def)

lemma processQueue_dispatch:
  assumes "queue s = (i, c) # rest" "runningCount s < maxP" "requestorInstance s = Some a"
  shows "processQueue maxP s =
           (s\<lparr>runningCount := runningCount s + 1, queue := rest, dequeued := dequeued s @ [i],
              inflight := insert i (inflight s),
              dispatched := dispatched s @ [(i, a, applyGlobalConfig (globalConfig s) c)]\<rparr>,
            None)"
  using assms by (simp add: processQueue_def Let_def)

lemma parallel_init_inv: "0 \<le> maxP \<Longrightarrow> parallel_inv maxP (parallel_init a g)"
  by (simp add: parallel_inv_def parallel_init_def)

lemma parallel_invD:
  assumes "parallel_inv maxP s"
  shows "finite (inflight s)" and "finite (finishing s)" and "inflight s \<inter> finishing s = {}"
    and "int (card (inflight s)) + int (card (finishing s)) \<le> runningCount s"
    and "runningCount s \<le> maxP"
    and "[0..<length (dequeued s)] = dequeued s"
    and "[length (dequeued s)..<calls s] = map fst (queue s)"
    and "length (dequeued s) \<le> calls s"
    and "\<forall>i \<in> inflight s \<union> finishing s. i < length (dequeued s)"
    and "sorted_wrt (<) (map fst (dispatched s))"
    and "\<forall>i \<in> set (map fst (dispatched s)). i < length (dequeued s)"
    and "\<forall>i. promises s i \<noteq> None \<longrightarrow> i < length (dequeued s)"
    and "\<forall>i \<in> inflight s. promises s i = None"
    and "queue s = [] \<or> maxP \<le> runningCount s"
  using assms unfolding parallel_inv_def by blast+

lemma parallel_invI:
  assumes "finite (inflight s)" and "finite (finishing s)" and "inflight s \<inter> finishing s = {}"
    and "int (card (inflight s)) + int (card (finishing s)) \<le> runningCount s"
    and "runningCount s \<le> maxP"
    and "[0..<length (dequeued s)] = dequeued s"
    and "[length (dequeued s)..<calls s] = map fst (queue s)"
    and "length (dequeued s) \<le> calls s"
    and "\<forall>i \<in> inflight s \<union> finishing s. i < length (dequeued s)"
    and "sorted_wrt (<) (map fst (dispatched s))"
    and "\<forall>i \<in> set (map fst (dispatched s)). i < length (dequeued s)"
    and "\<forall>i. promises s i \<noteq> None \<longrightarrow> i < length (dequeued s)"
    and "\<forall>i \<in> inflight s. promises s i = None"
    and "queue s = [] \<or> maxP \<le> runningCount s"
  shows "parallel_inv maxP s"
  using assms unfolding parallel_inv_def by blast

lemma card_remove_int:
  assumes "finite A" "i \<in> A"
  shows "int (card (A - {i})) = int (card A) - 1"
proof -
  have e: "card A = Suc (card (A - {i}))" by (rule card_Suc_Diff1 [OF assms, symmetric])
  show ?thesis by (subst e) (simp del: card_Diff_singleton card_Diff_insert)
qed

lemma card_insert_int:
  assumes "finite A" "i \<notin> A"
  shows "int (card (insert i A)) = int (card A) + 1"
  using assms by simp

lemma inv_enqueue_only:
  assumes inv: "parallel_inv maxP s" and full: "maxP \<le> runningCount s"
  shows "parallel_inv maxP (s\<lparr>calls := calls s + 1, queue := queue s @ [(calls s, cfg)]\<rparr>)"
proof (rule parallel_invI)
  note D = parallel_invD [OF inv]
  show "[length (dequeued (s\<lparr>calls := calls s + 1, queue := queue s @ [(calls s, cfg)]\<rparr>))..<
         calls (s\<lparr>calls := calls s + 1, queue := queue s @ [(calls s, cfg)]\<rparr>)]
        = map fst (queue (s\<lparr>calls := calls s + 1, queue := queue s @ [(calls s, cfg)]\<rparr>))"
    using D(7,8) by simp
qed (use parallel_invD [OF inv] full in simp_all)

lemma inv_shift_throw:
  assumes inv: "parallel_inv maxP s" and d: "length (dequeued s) = calls s"
    and r: "runningCount s < maxP"
  shows "parallel_inv maxP
           (settle (calls s) (Rejected NotInjected)
             (s\<lparr>calls := calls s + 1, runningCount := runningCount s + 1, queue := [],
                dequeued := dequeued s @ [calls s]\<rparr>))"
proof -
  note D = parallel_invD [OF inv]
  have n: "promises s (calls s) = None" using D(12) d by auto
  have st: "settle (calls s) (Rejected NotInjected)
             (s\<lparr>calls := calls s + 1, runningCount := runningCount s + 1, queue := [],
                dequeued := dequeued s @ [calls s]\<rparr>)
         = s\<lparr>calls := calls s + 1, runningCount := runningCount s + 1, queue := [],
                dequeued := dequeued s @ [calls s],
                promises := (promises s)(calls s \<mapsto> Rejected NotInjected)\<rparr>"
    using n by (simp add: settle_def)
  show ?thesis unfolding st
  proof (rule parallel_invI)
    show "[0..<length (dequeued (s\<lparr>calls := calls s + 1, runningCount := runningCount s + 1, queue := [],
                dequeued := dequeued s @ [calls s],
                promises := (promises s)(calls s \<mapsto> Rejected NotInjected)\<rparr>))]
          = dequeued (s\<lparr>calls := calls s + 1, runningCount := runningCount s + 1, queue := [],
                dequeued := dequeued s @ [calls s],
                promises := (promises s)(calls s \<mapsto> Rejected NotInjected)\<rparr>)"
      using D(6) d by simp
    show "\<forall>i\<in>inflight (s\<lparr>calls := calls s + 1, runningCount := runningCount s + 1, queue := [],
                dequeued := dequeued s @ [calls s],
                promises := (promises s)(calls s \<mapsto> Rejected NotInjected)\<rparr>).
            promises (s\<lparr>calls := calls s + 1, runningCount := runningCount s + 1, queue := [],
                dequeued := dequeued s @ [calls s],
                promises := (promises s)(calls s \<mapsto> Rejected NotInjected)\<rparr>) i = None"
      using D(9,13) d by auto
  qed (use D d r in \<open>auto simp: less_Suc_eq\<close>)
qed

lemma inv_shift_dispatch:
  assumes inv: "parallel_inv maxP s" and d: "length (dequeued s) = calls s"
    and r: "runningCount s < maxP"
  shows "parallel_inv maxP
           (s\<lparr>calls := calls s + 1, runningCount := runningCount s + 1, queue := [],
              dequeued := dequeued s @ [calls s], inflight := insert (calls s) (inflight s),
              dispatched := dispatched s @ [(calls s, a, c')]\<rparr>)"
proof -
  note D = parallel_invD [OF inv]
  have n: "promises s (calls s) = None" using D(12) d by auto
  have ni: "calls s \<notin> inflight s" "calls s \<notin> finishing s" using D(9) d by auto
  have c: "int (card (insert (calls s) (inflight s))) = int (card (inflight s)) + 1"
    using D(1) ni by simp
  show ?thesis
  proof (rule parallel_invI)
    show "int (card (inflight (s\<lparr>calls := calls s + 1, runningCount := runningCount s + 1, queue := [],
              dequeued := dequeued s @ [calls s], inflight := insert (calls s) (inflight s),
              dispatched := dispatched s @ [(calls s, a, c')]\<rparr>)))
          + int (card (finishing (s\<lparr>calls := calls s + 1, runningCount := runningCount s + 1, queue := [],
              dequeued := dequeued s @ [calls s], inflight := insert (calls s) (inflight s),
              dispatched := dispatched s @ [(calls s, a, c')]\<rparr>)))
          \<le> runningCount (s\<lparr>calls := calls s + 1, runningCount := runningCount s + 1, queue := [],
              dequeued := dequeued s @ [calls s], inflight := insert (calls s) (inflight s),
              dispatched := dispatched s @ [(calls s, a, c')]\<rparr>)"
      using D(4) c by simp
    show "[0..<length (dequeued (s\<lparr>calls := calls s + 1, runningCount := runningCount s + 1, queue := [],
              dequeued := dequeued s @ [calls s], inflight := insert (calls s) (inflight s),
              dispatched := dispatched s @ [(calls s, a, c')]\<rparr>))]
          = dequeued (s\<lparr>calls := calls s + 1, runningCount := runningCount s + 1, queue := [],
              dequeued := dequeued s @ [calls s], inflight := insert (calls s) (inflight s),
              dispatched := dispatched s @ [(calls s, a, c')]\<rparr>)"
      using D(6) d by simp
    show "sorted_wrt (<) (map fst (dispatched (s\<lparr>calls := calls s + 1, runningCount := runningCount s + 1, queue := [],
              dequeued := dequeued s @ [calls s], inflight := insert (calls s) (inflight s),
              dispatched := dispatched s @ [(calls s, a, c')]\<rparr>)))"
      using D(10,11) d by (auto simp: sorted_wrt_append)
  qed (use D d r n ni in \<open>auto simp: less_Suc_eq\<close>)
qed


lemma inv_Call:
  assumes inv: "parallel_inv maxP s"
  shows "parallel_inv maxP (parallel_step maxP (Call cfg) s)"
proof -
  let ?s1 = "s\<lparr>calls := calls s + 1, queue := queue s @ [(calls s, cfg)]\<rparr>"
  note D = parallel_invD [OF inv]
  show ?thesis
  proof (cases "maxP \<le> runningCount s")
    case True
    then have "processQueue maxP ?s1 = (?s1, None)" by (simp add: processQueue_idle)
    then have "parallel_step maxP (Call cfg) s = ?s1" by (simp add: parallel_step_def Let_def)
    then show ?thesis using inv_enqueue_only [OF inv True] by simp
  next
    case False
    then have q: "queue s = []" using D(14) by simp
    then have d: "length (dequeued s) = calls s" using D(7,8) by auto
    have q1: "queue ?s1 = (calls s, cfg) # []" using q by simp
    have r: "runningCount ?s1 < maxP" using False by simp
    have r': "runningCount s < maxP" using False by simp
    show ?thesis
    proof (cases "requestorInstance s")
      case None
      then have "requestorInstance ?s1 = None" by simp
      from processQueue_throw [OF q1 r this]
      have "parallel_step maxP (Call cfg) s =
              settle (calls s) (Rejected NotInjected)
                (s\<lparr>calls := calls s + 1, runningCount := runningCount s + 1, queue := [],
                   dequeued := dequeued s @ [calls s]\<rparr>)"
        by (simp add: parallel_step_def Let_def)
      then show ?thesis using inv_shift_throw [OF inv d r'] by simp
    next
      case (Some a)
      then have "requestorInstance ?s1 = Some a" by simp
      from processQueue_dispatch [OF q1 r this]
      have "parallel_step maxP (Call cfg) s =
              s\<lparr>calls := calls s + 1, runningCount := runningCount s + 1, queue := [],
                dequeued := dequeued s @ [calls s], inflight := insert (calls s) (inflight s),
                dispatched := dispatched s @ [(calls s, a, applyGlobalConfig (globalConfig s) cfg)]\<rparr>"
        by (simp add: parallel_step_def Let_def)
      then show ?thesis using inv_shift_dispatch [OF inv d r'] by simp
    qed
  qed
qed

lemma inv_Settle:
  assumes inv: "parallel_inv maxP s"
  shows "parallel_inv maxP (parallel_step maxP (Settle i out) s)"
proof (cases "i \<in> inflight s")
  case False
  then show ?thesis using inv by (simp add: parallel_step_def)
next
  case True
  note D = parallel_invD [OF inv]
  have nf: "i \<notin> finishing s" using D(3) True by blast
  have p: "promises s i = None" using D(13) True by blast
  have il: "i < length (dequeued s)" using D(9) True by blast
  have c1: "int (card (inflight s - {i})) = int (card (inflight s)) - 1"
    by (rule card_remove_int [OF D(1) True])
  have c2: "int (card (insert i (finishing s))) = int (card (finishing s)) + 1"
    by (rule card_insert_int [OF D(2) nf])
  define v :: "('b error, 'c) settled"
    where "v = (case out of Inl x \<Rightarrow> Rejected (TransportError x) | Inr r \<Rightarrow> Resolved r)"
  have step: "parallel_step maxP (Settle i out) s =
          s\<lparr>inflight := inflight s - {i}, finishing := insert i (finishing s),
            promises := (promises s)(i \<mapsto> v)\<rparr>"
    using True p by (simp add: parallel_step_def settle_def v_def)
  show ?thesis unfolding step
  proof (rule parallel_invI)
    show "int (card (inflight (s\<lparr>inflight := inflight s - {i}, finishing := insert i (finishing s),
            promises := (promises s)(i \<mapsto> v)\<rparr>)))
        + int (card (finishing (s\<lparr>inflight := inflight s - {i}, finishing := insert i (finishing s),
            promises := (promises s)(i \<mapsto> v)\<rparr>)))
        \<le> runningCount (s\<lparr>inflight := inflight s - {i}, finishing := insert i (finishing s),
            promises := (promises s)(i \<mapsto> v)\<rparr>)"
      using D(4) by (simp add: c1 c2 del: card_Diff_singleton card_Diff_insert card_insert_if)
    show "inflight (s\<lparr>inflight := inflight s - {i}, finishing := insert i (finishing s),
            promises := (promises s)(i \<mapsto> v)\<rparr>)
        \<inter> finishing (s\<lparr>inflight := inflight s - {i}, finishing := insert i (finishing s),
            promises := (promises s)(i \<mapsto> v)\<rparr>) = {}"
      using D(3) by auto
  qed (use D il in auto)
qed

lemma inv_Finally:
  assumes inv: "parallel_inv maxP s"
  shows "parallel_inv maxP (parallel_step maxP (Finally i) s)"
proof (cases "i \<in> finishing s")
  case False
  then show ?thesis using inv by (simp add: parallel_step_def)
next
  case True
  let ?s1 = "s\<lparr>finishing := finishing s - {i}, runningCount := runningCount s - 1\<rparr>"
  note D = parallel_invD [OF inv]
  have c: "int (card (finishing s - {i})) = int (card (finishing s)) - 1"
    by (rule card_remove_int [OF D(2) True])
  have step: "parallel_step maxP (Finally i) s = fst (processQueue maxP ?s1)"
    using True by (simp add: parallel_step_def)
  have le: "int (card (inflight s)) + (int (card (finishing s)) - 1) \<le> runningCount s - 1"
    using D(4) by simp
  show ?thesis
  proof (cases "queue s = [] \<or> maxP \<le> runningCount s - 1")
    case idle: True
    then have pq: "processQueue maxP ?s1 = (?s1, None)" by (simp add: processQueue_idle)
    show ?thesis unfolding step pq fst_conv
    proof (rule parallel_invI)
      show "int (card (inflight ?s1)) + int (card (finishing ?s1)) \<le> runningCount ?s1"
        using le by (simp add: c del: card_Diff_singleton card_Diff_insert)
    qed (use D idle in auto)
  next
    case False
    then obtain j cfg rest where q: "queue s = (j, cfg) # rest" by (cases "queue s") auto
    then have q1: "queue ?s1 = (j, cfg) # rest" by simp
    have r: "runningCount ?s1 < maxP" using False by simp
    have full: "maxP \<le> runningCount s" using D(14) q by simp
    have h: "j = length (dequeued s)" "length (dequeued s) < calls s"
        "[Suc (length (dequeued s))..<calls s] = map fst rest"
      using D(7) q by (auto simp: upt_eq_Cons_conv)
    have jn: "j \<notin> inflight s" "j \<notin> finishing s" "promises s j = None"
      using D(9,12) h(1) by auto
    have dq: "[0..<Suc (length (dequeued s))] = dequeued s @ [j]"
      unfolding h(1) by (simp add: D(6))
    have dj: "[0..<j] = dequeued s" unfolding h(1) by (rule D(6))
    show ?thesis
    proof (cases "requestorInstance s")
      case None
      then have "requestorInstance ?s1 = None" by simp
      from processQueue_throw [OF q1 r this]
      have pq: "fst (processQueue maxP ?s1) =
          s\<lparr>finishing := finishing s - {i}, runningCount := runningCount s,
            queue := rest, dequeued := dequeued s @ [j]\<rparr>"
        by simp
      show ?thesis unfolding step pq
      proof (rule parallel_invI)
        show "int (card (inflight (s\<lparr>finishing := finishing s - {i}, runningCount := runningCount s,
            queue := rest, dequeued := dequeued s @ [j]\<rparr>)))
          + int (card (finishing (s\<lparr>finishing := finishing s - {i}, runningCount := runningCount s,
            queue := rest, dequeued := dequeued s @ [j]\<rparr>)))
          \<le> runningCount (s\<lparr>finishing := finishing s - {i}, runningCount := runningCount s,
            queue := rest, dequeued := dequeued s @ [j]\<rparr>)"
          using le by (simp add: c del: card_Diff_singleton card_Diff_insert)
        show "[0..<length (dequeued (s\<lparr>finishing := finishing s - {i}, runningCount := runningCount s,
            queue := rest, dequeued := dequeued s @ [j]\<rparr>))]
          = dequeued (s\<lparr>finishing := finishing s - {i}, runningCount := runningCount s,
            queue := rest, dequeued := dequeued s @ [j]\<rparr>)"
          unfolding h(1) by (simp add: D(6))
      qed (use D full h dj in \<open>auto simp: less_Suc_eq\<close>)
    next
      case (Some a)
      then have "requestorInstance ?s1 = Some a" by simp
      from processQueue_dispatch [OF q1 r this]
      have pq: "fst (processQueue maxP ?s1) =
          s\<lparr>finishing := finishing s - {i}, runningCount := runningCount s,
            queue := rest, dequeued := dequeued s @ [j], inflight := insert j (inflight s),
            dispatched := dispatched s @ [(j, a, applyGlobalConfig (globalConfig s) cfg)]\<rparr>"
        by simp
      have ci: "int (card (insert j (inflight s))) = int (card (inflight s)) + 1"
        by (rule card_insert_int [OF D(1) jn(1)])
      show ?thesis unfolding step pq
      proof (rule parallel_invI)
        show "int (card (inflight (s\<lparr>finishing := finishing s - {i}, runningCount := runningCount s,
            queue := rest, dequeued := dequeued s @ [j], inflight := insert j (inflight s),
            dispatched := dispatched s @ [(j, a, applyGlobalConfig (globalConfig s) cfg)]\<rparr>)))
          + int (card (finishing (s\<lparr>finishing := finishing s - {i}, runningCount := runningCount s,
            queue := rest, dequeued := dequeued s @ [j], inflight := insert j (inflight s),
            dispatched := dispatched s @ [(j, a, applyGlobalConfig (globalConfig s) cfg)]\<rparr>)))
          \<le> runningCount (s\<lparr>finishing := finishing s - {i}, runningCount := runningCount s,
            queue := rest, dequeued := dequeued s @ [j], inflight := insert j (inflight s),
            dispatched := dispatched s @ [(j, a, applyGlobalConfig (globalConfig s) cfg)]\<rparr>)"
          using le by (simp add: c ci del: card_Diff_singleton card_Diff_insert card_insert_if)
        show "[0..<length (dequeued (s\<lparr>finishing := finishing s - {i}, runningCount := runningCount s,
            queue := rest, dequeued := dequeued s @ [j], inflight := insert j (inflight s),
            dispatched := dispatched s @ [(j, a, applyGlobalConfig (globalConfig s) cfg)]\<rparr>))]
          = dequeued (s\<lparr>finishing := finishing s - {i}, runningCount := runningCount s,
            queue := rest, dequeued := dequeued s @ [j], inflight := insert j (inflight s),
            dispatched := dispatched s @ [(j, a, applyGlobalConfig (globalConfig s) cfg)]\<rparr>)"
          unfolding h(1) by (simp add: D(6))
        show "sorted_wrt (<) (map fst (dispatched (s\<lparr>finishing := finishing s - {i}, runningCount := runningCount s,
            queue := rest, dequeued := dequeued s @ [j], inflight := insert j (inflight s),
            dispatched := dispatched s @ [(j, a, applyGlobalConfig (globalConfig s) cfg)]\<rparr>)))"
          using D(10,11) h(1) by (auto simp: sorted_wrt_append)
      qed (use D full h jn dj in \<open>auto simp: less_Suc_eq\<close>)
    qed
  qed
qed

lemma inv_step:
  assumes "parallel_inv maxP s"
  shows "parallel_inv maxP (parallel_step maxP ev s)"
proof (cases ev)
  case (Call cfg)
  then show ?thesis using inv_Call [OF assms] by simp
next
  case (Settle i out)
  then show ?thesis using inv_Settle [OF assms] by simp
next
  case (Finally i)
  then show ?thesis using inv_Finally [OF assms] by simp
next
  case (Inject a)
  then show ?thesis using assms by (simp add: parallel_step_def inject_def parallel_inv_def)
next
  case (SetGlobalConfig p)
  then show ?thesis using assms by (simp add: parallel_step_def parallel_inv_def)
qed

lemma inv_run:
  "parallel_inv maxP s \<Longrightarrow> parallel_inv maxP (parallel_run maxP evs s)"
  by (induction evs arbitrary: s) (simp_all add: inv_step)

lemma inv_reachable:
  "0 \<le> maxP \<Longrightarrow> parallel_inv maxP (parallel_run maxP evs (parallel_init a g))"
  by (simp add: inv_run parallel_init_inv)


lemma leaked_step:
  assumes inv: "parallel_inv maxP s"
  shows "leaked s \<le> leaked (parallel_step maxP ev s)"
proof (cases ev)
  case (Call cfg)
  let ?s1 = "s\<lparr>calls := calls s + 1, queue := queue s @ [(calls s, cfg)]\<rparr>"
  note D = parallel_invD [OF inv]
  show ?thesis
  proof (cases "maxP \<le> runningCount s")
    case True
    then have "processQueue maxP ?s1 = (?s1, None)" by (simp add: processQueue_idle)
    then show ?thesis using Call by (simp add: parallel_step_def Let_def leaked_def)
  next
    case False
    then have q: "queue s = []" using D(14) by simp
    then have d: "length (dequeued s) = calls s" using D(7,8) by auto
    have q1: "queue ?s1 = (calls s, cfg) # []" using q by simp
    have r: "runningCount ?s1 < maxP" using False by simp
    have ni: "calls s \<notin> inflight s" using D(9) d by auto
    show ?thesis
    proof (cases "requestorInstance s")
      case None
      then have "requestorInstance ?s1 = None" by simp
      from processQueue_throw [OF q1 r this]
      show ?thesis using Call by (simp add: parallel_step_def Let_def leaked_def settle_def)
    next
      case (Some a)
      then have "requestorInstance ?s1 = Some a" by simp
      from processQueue_dispatch [OF q1 r this]
      show ?thesis using Call D(1) ni by (simp add: parallel_step_def Let_def leaked_def)
    qed
  qed
next
  case (Settle i out)
  note D = parallel_invD [OF inv]
  show ?thesis
  proof (cases "i \<in> inflight s")
    case False
    then show ?thesis using Settle by (simp add: parallel_step_def)
  next
    case True
    have nf: "i \<notin> finishing s" using D(3) True by blast
    have c1: "int (card (inflight s - {i})) = int (card (inflight s)) - 1"
      by (rule card_remove_int [OF D(1) True])
    have c2: "int (card (insert i (finishing s))) = int (card (finishing s)) + 1"
      by (rule card_insert_int [OF D(2) nf])
    show ?thesis using Settle True
      by (simp add: parallel_step_def settle_def leaked_def c1 c2
            del: card_Diff_singleton card_Diff_insert card_insert_if)
  qed
next
  case (Finally i)
  note D = parallel_invD [OF inv]
  show ?thesis
  proof (cases "i \<in> finishing s")
    case False
    then show ?thesis using Finally by (simp add: parallel_step_def)
  next
    case True
    let ?s1 = "s\<lparr>finishing := finishing s - {i}, runningCount := runningCount s - 1\<rparr>"
    have c: "int (card (finishing s - {i})) = int (card (finishing s)) - 1"
      by (rule card_remove_int [OF D(2) True])
    have step: "parallel_step maxP (Finally i) s = fst (processQueue maxP ?s1)"
      using True by (simp add: parallel_step_def)
    show ?thesis
    proof (cases "queue s = [] \<or> maxP \<le> runningCount s - 1")
      case idle: True
      then have pq: "processQueue maxP ?s1 = (?s1, None)" by (simp add: processQueue_idle)
      show ?thesis unfolding Finally step pq fst_conv
        by (simp add: leaked_def c del: card_Diff_singleton card_Diff_insert)
    next
      case False
      then obtain j cfg rest where q: "queue s = (j, cfg) # rest" by (cases "queue s") auto
      then have q1: "queue ?s1 = (j, cfg) # rest" by simp
      have r: "runningCount ?s1 < maxP" using False by simp
      have h: "j = length (dequeued s)" using D(7) q by (auto simp: upt_eq_Cons_conv)
      have jn: "j \<notin> inflight s" using D(9) h by auto
      have ci: "int (card (insert j (inflight s))) = int (card (inflight s)) + 1"
        by (rule card_insert_int [OF D(1) jn])
      show ?thesis
      proof (cases "requestorInstance s")
        case None
        then have "requestorInstance ?s1 = None" by simp
        from processQueue_throw [OF q1 r this]
        show ?thesis unfolding Finally step
          by (simp add: leaked_def c del: card_Diff_singleton card_Diff_insert)
      next
        case (Some a)
        then have "requestorInstance ?s1 = Some a" by simp
        from processQueue_dispatch [OF q1 r this]
        show ?thesis unfolding Finally step
          by (simp add: leaked_def c ci del: card_Diff_singleton card_Diff_insert card_insert_if)
      qed
    qed
  qed
next
  case (Inject a)
  then show ?thesis by (simp add: parallel_step_def inject_def leaked_def)
next
  case (SetGlobalConfig p)
  then show ?thesis by (simp add: parallel_step_def leaked_def)
qed

lemma leaked_run:
  "parallel_inv maxP s \<Longrightarrow> leaked s \<le> leaked (parallel_run maxP evs s)"
proof (induction evs arbitrary: s)
  case Nil
  then show ?case by simp
next
  case (Cons ev evs)
  have "leaked s \<le> leaked (parallel_step maxP ev s)" by (rule leaked_step [OF Cons.prems])
  also have "\<dots> \<le> leaked (parallel_run maxP evs (parallel_step maxP ev s))"
    by (rule Cons.IH [OF inv_step [OF Cons.prems]])
  finally show ?case by simp
qed

lemma stuck_step:
  assumes "maxP \<le> runningCount s" "inflight s = {}" "finishing s = {}"
  shows "runningCount (parallel_step maxP ev s) = runningCount s
       \<and> inflight (parallel_step maxP ev s) = {} \<and> finishing (parallel_step maxP ev s) = {}
       \<and> promises (parallel_step maxP ev s) = promises s
       \<and> dispatched (parallel_step maxP ev s) = dispatched s
       \<and> calls s \<le> calls (parallel_step maxP ev s)
       \<and> map fst (queue (parallel_step maxP ev s))
           = map fst (queue s) @ [calls s..<calls (parallel_step maxP ev s)]"
proof (cases ev)
  case (Call cfg)
  let ?s1 = "s\<lparr>calls := calls s + 1, queue := queue s @ [(calls s, cfg)]\<rparr>"
  have "processQueue maxP ?s1 = (?s1, None)" using assms(1) by (simp add: processQueue_idle)
  then show ?thesis using Call assms by (simp add: parallel_step_def Let_def)
qed (use assms in \<open>simp_all add: parallel_step_def inject_def\<close>)

lemma stuck_forever:
  assumes "maxP \<le> runningCount s" "inflight s = {}" "finishing s = {}"
  shows "runningCount (parallel_run maxP evs s) = runningCount s
       \<and> inflight (parallel_run maxP evs s) = {} \<and> finishing (parallel_run maxP evs s) = {}
       \<and> promises (parallel_run maxP evs s) = promises s
       \<and> dispatched (parallel_run maxP evs s) = dispatched s
       \<and> calls s \<le> calls (parallel_run maxP evs s)
       \<and> map fst (queue (parallel_run maxP evs s))
           = map fst (queue s) @ [calls s..<calls (parallel_run maxP evs s)]"
  using assms
proof (induction evs arbitrary: s)
  case Nil
  then show ?case by simp
next
  case (Cons ev evs)
  let ?t = "parallel_step maxP ev s"
  note st = stuck_step [OF Cons.prems, of ev]
  have pre: "maxP \<le> runningCount ?t" "inflight ?t = {}" "finishing ?t = {}"
    using st Cons.prems(1) by simp_all
  note ih = Cons.IH [OF pre]
  have "[calls s..<calls ?t] @ [calls ?t..<calls (parallel_run maxP evs ?t)]
        = [calls s..<calls (parallel_run maxP evs ?t)]"
    using st ih by (metis le_Suc_ex upt_add_eq_append)
  then show ?case using st ih by simp
qed

text \<open>
  In every reachable state of an instance with capacity at least 0: no more requests are
  in flight than the capacity; calls are dispatched in the order in which they were made,
  and every dispatched call was made before every call still queued.
\<close>

lemma parallel_bounded_fifo:
  fixes s :: "('a, 'x, 'r) parallel_state"
  assumes "0 \<le> maxP" and "s = parallel_run maxP evs0 (parallel_init a0 g0)"
  shows "int (card (inflight s)) \<le> maxP"
    and "sorted_wrt (<) (map fst (dispatched s))"
    and "sorted_wrt (<) (map fst (queue s))"
    and "\<forall>i \<in> set (map fst (dispatched s)). \<forall>j \<in> set (map fst (queue s)). i < j"
proof -
  have inv: "parallel_inv maxP s" unfolding assms(2) by (rule inv_reachable [OF assms(1)])
  note D = parallel_invD [OF inv]
  show "int (card (inflight s)) \<le> maxP" using D(4,5) by simp
  show "sorted_wrt (<) (map fst (dispatched s))" by (rule D(10))
  show "sorted_wrt (<) (map fst (queue s))"
    unfolding D(7) [symmetric] by (simp add: sorted_wrt_upt)
  show "\<forall>i \<in> set (map fst (dispatched s)). \<forall>j \<in> set (map fst (queue s)). i < j"
    unfolding D(7) [symmetric] using D(11) by auto
qed

text \<open>
  When the request of a call in flight is rejected by the transport, the call's promise
  rejects with that error, and the \<open>finally\<close> callback leaves the count, the queue, the
  dispatches and the calls in flight exactly as after a success.
\<close>

lemma transport_failure_isolated:
  fixes s :: "('a, 'x, 'r) parallel_state"
  assumes "0 \<le> maxP" and "s = parallel_run maxP evs0 (parallel_init a0 g0)"
    and "i \<in> inflight s"
  shows "promises (parallel_step maxP (Settle i (Inl x)) s) i = Some (Rejected (TransportError x))"
    and "runningCount (parallel_step maxP (Finally i) (parallel_step maxP (Settle i (Inl x)) s))
           = runningCount (parallel_step maxP (Finally i) (parallel_step maxP (Settle i (Inr r)) s))"
    and "queue (parallel_step maxP (Finally i) (parallel_step maxP (Settle i (Inl x)) s))
           = queue (parallel_step maxP (Finally i) (parallel_step maxP (Settle i (Inr r)) s))"
    and "dispatched (parallel_step maxP (Finally i) (parallel_step maxP (Settle i (Inl x)) s))
           = dispatched (parallel_step maxP (Finally i) (parallel_step maxP (Settle i (Inr r)) s))"
    and "inflight (parallel_step maxP (Finally i) (parallel_step maxP (Settle i (Inl x)) s))
           = inflight (parallel_step maxP (Finally i) (parallel_step maxP (Settle i (Inr r)) s))"
proof -
  have inv: "parallel_inv maxP s" unfolding assms(2) by (rule inv_reachable [OF assms(1)])
  note D = parallel_invD [OF inv]
  have p: "promises s i = None" using D(13) assms(3) by blast
  have st: "parallel_step maxP (Settle i out) s =
          s\<lparr>inflight := inflight s - {i}, finishing := insert i (finishing s),
            promises := (promises s)(i \<mapsto>
              (case out of Inl x \<Rightarrow> Rejected (TransportError x) | Inr r \<Rightarrow> Resolved r))\<rparr>" for out
    using assms(3) p by (simp add: parallel_step_def settle_def)
  show "promises (parallel_step maxP (Settle i (Inl x)) s) i = Some (Rejected (TransportError x))"
    by (simp add: st)
  have nf: "i \<notin> finishing s" using D(3) assms(3) by blast
  show "runningCount (parallel_step maxP (Finally i) (parallel_step maxP (Settle i (Inl x)) s))
           = runningCount (parallel_step maxP (Finally i) (parallel_step maxP (Settle i (Inr r)) s))"
    "queue (parallel_step maxP (Finally i) (parallel_step maxP (Settle i (Inl x)) s))
           = queue (parallel_step maxP (Finally i) (parallel_step maxP (Settle i (Inr r)) s))"
    "dispatched (parallel_step maxP (Finally i) (parallel_step maxP (Settle i (Inl x)) s))
           = dispatched (parallel_step maxP (Finally i) (parallel_step maxP (Settle i (Inr r)) s))"
    "inflight (parallel_step maxP (Finally i) (parallel_step maxP (Settle i (Inl x)) s))
           = inflight (parallel_step maxP (Finally i) (parallel_step maxP (Settle i (Inr r)) s))"
    unfolding st using nf
    by (simp_all add: parallel_step_def processQueue_def Let_def split: list.splits option.splits)
qed

text \<open>
  C10. Let \<open>s\<close> be a state an instance with capacity \<open>maxP \<ge> 0\<close> can reach. If no
  adapter is registered and a slot is free, a call in \<open>s\<close> is dequeued at once, its
  promise rejects with the not-injected error, nothing is dispatched, and the count rises
  by one with no request to account for it: one more slot is leaked. Whatever happens
  afterwards, the number of leaked slots never falls. Once it has reached \<open>maxP\<close>, the
  count stays at \<open>maxP\<close> and nothing is dispatched any more: after any further events,
  an injection of an adapter included, every call made since is still in the queue, in
  order, and its promise is pending.
\<close>

theorem leaked_slot_blocks_queue:
  fixes s :: "('a, 'x, 'r) parallel_state"
  assumes "0 \<le> maxP" and "s = parallel_run maxP evs0 (parallel_init a0 g0)"
  shows "(requestorInstance s = None \<and> runningCount s < maxP \<longrightarrow>
            promises (parallel_step maxP (Call cfg) s) (calls s) = Some (Rejected NotInjected)
          \<and> runningCount (parallel_step maxP (Call cfg) s) = runningCount s + 1
          \<and> inflight (parallel_step maxP (Call cfg) s) = inflight s
          \<and> dispatched (parallel_step maxP (Call cfg) s) = dispatched s
          \<and> leaked (parallel_step maxP (Call cfg) s) = leaked s + 1)
       \<and> leaked s \<le> leaked (parallel_run maxP evs s)
       \<and> (maxP \<le> leaked s \<longrightarrow>
            runningCount (parallel_run maxP evs s) = maxP
          \<and> inflight (parallel_run maxP evs s) = {}
          \<and> dispatched (parallel_run maxP evs s) = dispatched s
          \<and> map fst (queue (parallel_run maxP evs s))
              = map fst (queue s) @ [calls s..<calls (parallel_run maxP evs s)]
          \<and> (\<forall>i. calls s \<le> i \<longrightarrow> promises (parallel_run maxP evs s) i = None))"
proof -
  have inv: "parallel_inv maxP s" unfolding assms(2) by (rule inv_reachable [OF assms(1)])
  note D = parallel_invD [OF inv]
  have a: "promises (parallel_step maxP (Call cfg) s) (calls s) = Some (Rejected NotInjected)
          \<and> runningCount (parallel_step maxP (Call cfg) s) = runningCount s + 1
          \<and> inflight (parallel_step maxP (Call cfg) s) = inflight s
          \<and> dispatched (parallel_step maxP (Call cfg) s) = dispatched s
          \<and> leaked (parallel_step maxP (Call cfg) s) = leaked s + 1"
    if none: "requestorInstance s = None" and lt: "runningCount s < maxP"
  proof -
    let ?s1 = "s\<lparr>calls := calls s + 1, queue := queue s @ [(calls s, cfg)]\<rparr>"
    have q: "queue s = []" using D(14) lt by simp
    then have d: "length (dequeued s) = calls s" using D(7,8) by auto
    have n: "promises s (calls s) = None" using D(12) d by auto
    have q1: "queue ?s1 = (calls s, cfg) # []" using q by simp
    have r: "runningCount ?s1 < maxP" using lt by simp
    have "requestorInstance ?s1 = None" using none by simp
    from processQueue_throw [OF q1 r this]
    show ?thesis using n by (simp add: parallel_step_def Let_def leaked_def settle_def)
  qed
  have c: "runningCount (parallel_run maxP evs s) = maxP
          \<and> inflight (parallel_run maxP evs s) = {}
          \<and> dispatched (parallel_run maxP evs s) = dispatched s
          \<and> map fst (queue (parallel_run maxP evs s))
              = map fst (queue s) @ [calls s..<calls (parallel_run maxP evs s)]
          \<and> (\<forall>i. calls s \<le> i \<longrightarrow> promises (parallel_run maxP evs s) i = None)"
    if full: "maxP \<le> leaked s"
  proof -
    have z: "int (card (inflight s)) + int (card (finishing s)) \<le> 0" "runningCount s = maxP"
      using full D(4,5) by (simp_all add: leaked_def)
    then have "card (inflight s) = 0" "card (finishing s) = 0" by linarith+
    then have e: "inflight s = {}" "finishing s = {}" using D(1,2) by simp_all
    have r: "maxP \<le> runningCount s" using z(2) by simp
    note st = stuck_forever [OF r e, of evs]
    have "promises s i = None" if "calls s \<le> i" for i
      using D(12,8) that by (metis leD le_trans)
    then show ?thesis using st z(2) by simp
  qed
  show ?thesis using a leaked_run [OF inv] c by blast
qed

theorem leaked_slot_blocks_queue_witness:
  "promises (parallel_step 2 (Call example_config) unconfigured) 0 = Some (Rejected NotInjected)
   \<and> leaked (parallel_run 2 two_calls unconfigured) = 2
   \<and> requestorInstance (parallel_run 2 later_events (parallel_run 2 two_calls unconfigured)) = Some 7
   \<and> runningCount (parallel_run 2 later_events (parallel_run 2 two_calls unconfigured)) = 2
   \<and> dispatched (parallel_run 2 later_events (parallel_run 2 two_calls unconfigured)) = []
   \<and> map fst (queue (parallel_run 2 later_events (parallel_run 2 two_calls unconfigured))) = [2, 3]
   \<and> promises (parallel_run 2 later_events (parallel_run 2 two_calls unconfigured)) 2 = None
   \<and> promises (parallel_run 2 later_events (parallel_run 2 two_calls unconfigured)) 3 = None"
proof -
  note defs = unconfigured_def parallel_init_def two_calls_def later_events_def
    parallel_step_def processQueue_def settle_def inject_def Let_def leaked_def
  have two: "(0::int) \<le> 2" by simp
  have i0: "unconfigured = parallel_run 2 [] (parallel_init None example_global)"
    by (simp add: unconfigured_def)
  have i2: "parallel_run 2 two_calls unconfigured
              = parallel_run 2 two_calls (parallel_init None example_global)"
    by (simp add: unconfigured_def)
  have h0: "requestorInstance unconfigured = None \<and> runningCount unconfigured < 2"
    "calls unconfigured = 0"
    by (simp_all add: defs)
  have l2: "leaked (parallel_run 2 two_calls unconfigured) = 2"
    "calls (parallel_run 2 two_calls unconfigured) = 2"
    "queue (parallel_run 2 two_calls unconfigured) = []"
    "dispatched (parallel_run 2 two_calls unconfigured) = []"
    by (simp_all add: defs)
  have full: "(2::int) \<le> leaked (parallel_run 2 two_calls unconfigured)" by (simp add: l2)
  have c4: "calls (parallel_run 2 later_events (parallel_run 2 two_calls unconfigured)) = 4"
    "requestorInstance (parallel_run 2 later_events (parallel_run 2 two_calls unconfigured)) = Some 7"
    by (simp_all add: defs)
  note t0 = leaked_slot_blocks_queue [OF two i0, where cfg = example_config, THEN conjunct1,
      THEN mp, OF h0(1), unfolded h0(2)]
  note t2 = leaked_slot_blocks_queue [OF two i2, where evs = later_events,
      THEN conjunct2, THEN conjunct2, THEN mp, OF full, unfolded l2 c4]
  have u: "[2..<4] = [2, Suc 2]" by (simp add: upt_rec)
  show ?thesis
    using t0 t2 l2(1) c4(2) by (simp add: u)
qed

text \<open>
  C5 at a concrete run. An instance with capacity 1 gets its first call before any adapter
  was injected: the call rejects with the not-injected error and keeps its slot. An
  adapter is then injected and two more calls are made: neither is ever dispatched, both
  stay queued with pending promises.
\<close>

theorem not_injected_call_blocks_queue:
  "promises (parallel_run 1 stuck_run unconfigured) 0 = Some (Rejected NotInjected)
   \<and> requestorInstance (parallel_run 1 stuck_run unconfigured) = Some 7
   \<and> map fst (queue (parallel_run 1 stuck_run unconfigured)) = [1, 2]
   \<and> promises (parallel_run 1 stuck_run unconfigured) 1 = None
   \<and> promises (parallel_run 1 stuck_run unconfigured) 2 = None
   \<and> dispatched (parallel_run 1 stuck_run unconfigured) = []
   \<and> inflight (parallel_run 1 stuck_run unconfigured) = {}
   \<and> runningCount (parallel_run 1 stuck_run unconfigured) = 1"
  by (simp add: unconfigured_def parallel_init_def stuck_run_def
        parallel_step_def processQueue_def settle_def inject_def Let_def)

end
